theory Spec2Isabelle
  imports Main "HOL-Library.Word" "HOL-Library.Signed_Division"
begin

section \<open>Data model of convolveParallel.c\<close>

text \<open>
  A pixel byte is an \<open>unsigned char\<close>, the image dimensions are \<open>unsigned int\<close>
  (32 bits, arithmetic wraps), every other integer of the program is a C \<open>int\<close> of
  32 bits, modelled by HOL's \<open>int\<close>.

  The arithmetic on kernel weights (\<open>normalize_kernel\<close> and the accumulation of
  \<open>convolve\<close>) can leave the range of \<open>int\<close> for large weights. Signed overflow is
  undefined in C; the model gives it the two's complement wrap-around \<open>int_wrap\<close>, which
  is what the compiled program computes. The one quotient that is not representable,
  \<open>INT_MIN / -1\<close>, is wrapped too. The theorems on the values of colour
  channels assume weights for which none of this happens (\<open>weights_fit\<close>, \<open>taps_fit\<close>).

  The arithmetic on offsets in \<open>convolve\<close> stays inside the range of \<open>int\<close> for the
  images of \<open>dims_ok\<close> and is written without wrap-around. Division of C \<open>int\<close>s
  truncates towards zero (\<open>sdiv\<close>); a read or write outside a pixel buffer and a
  division by zero are the value \<open>None\<close>.
\<close>

type_synonym pixel_t = "8 word"

type_synonym kernel_t = "int list list"

record image_t =
  pixels :: "pixel_t list"
  rows :: "32 word"
  columns :: "32 word"

record thread_arguments_t =
  thread_id :: int
  section_size :: int
  "input" :: image_t
  "output" :: image_t
  kernel :: kernel_t

definition BYTES_PER_PIXEL :: "'a::comm_semiring_1" where
  "BYTES_PER_PIXEL = 4"

definition ALPHA_OFFSET :: int where
  "ALPHA_OFFSET = 3"

definition KERNEL_DIM :: nat where
  "KERNEL_DIM = 3"

text \<open>The macro \<open>IMG_BYTE\<close> is used at \<open>int\<close> (in \<open>convolve\<close>) and at
  \<open>unsigned int\<close> (in \<open>main\<close>).\<close>

definition IMG_BYTE :: "'a::comm_semiring_1 \<Rightarrow> 'a \<Rightarrow> 'a \<Rightarrow> 'a \<Rightarrow> 'a" where
  "IMG_BYTE cols r c b = (cols * BYTES_PER_PIXEL * r) + (BYTES_PER_PIXEL * c) + b"

definition CLAMP :: "int \<Rightarrow> int \<Rightarrow> int \<Rightarrow> int" where
  "CLAMP val mn mx = (if val < mn then mn else if val > mx then mx else val)"

text \<open>The value that 32-bit two's complement arithmetic gives to the exact result
  \<open>x\<close>.\<close>

definition int_wrap :: "int \<Rightarrow> int" where
  "int_wrap x = (x + 2147483648) mod 4294967296 - 2147483648"

text \<open>Reading \<open>image->pixels[off]\<close> into an \<open>int\<close>, and storing an \<open>int\<close> into
  \<open>image->pixels[off]\<close> (the store converts to \<open>unsigned char\<close>).\<close>

definition load_byte :: "image_t \<Rightarrow> int \<Rightarrow> int option" where
  "load_byte img off =
     (if 0 \<le> off \<and> off < int (length (pixels img))
      then Some (uint (pixels img ! nat off)) else None)"

definition store_byte :: "image_t \<Rightarrow> int \<Rightarrow> int \<Rightarrow> image_t option" where
  "store_byte img off v =
     (if 0 \<le> off \<and> off < int (length (pixels img))
      then Some (img\<lparr>pixels := (pixels img)[nat off := word_of_int v]\<rparr>) else None)"

text \<open>A counted loop whose body may fail: the body runs once for each element, in order,
  and the first failure ends the loop.\<close>

fun for_each :: "('a \<Rightarrow> 's \<Rightarrow> 's option) \<Rightarrow> 'a list \<Rightarrow> 's \<Rightarrow> 's option" where
  "for_each body [] s = Some s"
| "for_each body (x # xs) s =
     (case body x s of None \<Rightarrow> None | Some s' \<Rightarrow> for_each body xs s')"

section \<open>Kernels\<close>

text \<open>\<open>normalize_kernel\<close>: the two counted loops add the nine weights to \<open>norm\<close>.\<close>

definition normalize_kernel :: "kernel_t \<Rightarrow> int" where
  "normalize_kernel k =
     (let norm = fold (\<lambda>r norm. fold (\<lambda>c norm. int_wrap (norm + k ! r ! c))
                                     [0..<KERNEL_DIM] norm)
                   [0..<KERNEL_DIM] 0
      in if norm = 0 then 1 else norm)"

definition DEFAULT_KERNEL_NAME :: string where
  "DEFAULT_KERNEL_NAME = ''identity''"

definition kernel_catalog :: "(string \<times> kernel_t) list" where
  "kernel_catalog =
     [(DEFAULT_KERNEL_NAME, [[0, 0, 0], [0, 1, 0], [0, 0, 0]]),
      (''edge-detect'', [[-1, -1, -1], [-1, 8, -1], [-1, -1, -1]]),
      (''sharpen'', [[0, -1, 0], [-1, 5, -1], [0, -1, 0]]),
      (''emboss'', [[-2, -1, 0], [-1, 1, 1], [0, -2, 2]]),
      (''gaussian-blur'', [[1, 2, 1], [2, 4, 2], [1, 2, 1]])]"

fun find_entry_by_name :: "string \<Rightarrow> (string \<times> kernel_t) list \<Rightarrow> (string \<times> kernel_t) option" where
  "find_entry_by_name name [] = None"
| "find_entry_by_name name (cp # rest) =
     (if fst cp = name then Some cp else find_entry_by_name name rest)"

section \<open>The worker \<open>convolve\<close>\<close>

text \<open>One step of the innermost loops (lines 163 to 168): the tap \<open>(kr, kc)\<close> of the
  kernel, read at the clamped coordinates, is added to \<open>value\<close>.\<close>

definition kernel_tap ::
  "image_t \<Rightarrow> kernel_t \<Rightarrow> int \<Rightarrow> int \<Rightarrow> int \<Rightarrow> int \<Rightarrow> int \<Rightarrow> nat \<Rightarrow> nat \<Rightarrow> int \<Rightarrow> int option" where
  "kernel_tap inp k rws cols r c b kr kc val =
     (let half_dim = int (KERNEL_DIM div 2);
          R = r + (int kr - half_dim);
          C = c + (int kc - half_dim)
      in case load_byte inp (IMG_BYTE cols (CLAMP R 0 (rws - 1)) (CLAMP C 0 (cols - 1)) b) of
           None \<Rightarrow> None
         | Some pixelValue \<Rightarrow> Some (int_wrap (val + int_wrap (k ! kr ! kc * pixelValue))))"

text \<open>The value of channel \<open>b\<close> of pixel \<open>(r, c)\<close> (lines 154 to 174).\<close>

definition channel_value ::
  "image_t \<Rightarrow> kernel_t \<Rightarrow> int \<Rightarrow> int \<Rightarrow> int \<Rightarrow> int \<Rightarrow> int \<Rightarrow> int \<Rightarrow> int option" where
  "channel_value inp k rws cols kernel_norm r c b =
     (if b = ALPHA_OFFSET then load_byte inp (IMG_BYTE cols r c b)
      else
        case for_each (\<lambda>kr. for_each (\<lambda>kc. kernel_tap inp k rws cols r c b kr kc)
                               [0..<KERNEL_DIM])
               [0..<KERNEL_DIM] 0 of
          None \<Rightarrow> None
        | Some val \<Rightarrow> Some (CLAMP (int_wrap (val sdiv kernel_norm)) 0 255))"

text \<open>The loop over the four channels of one pixel (lines 153 to 177), writing the
  output buffer.\<close>

definition channel_step ::
  "image_t \<Rightarrow> kernel_t \<Rightarrow> int \<Rightarrow> int \<Rightarrow> int \<Rightarrow> int \<Rightarrow> int \<Rightarrow> nat \<Rightarrow> image_t \<Rightarrow> image_t option" where
  "channel_step inp k rws cols kernel_norm r c b out =
     (case channel_value inp k rws cols kernel_norm r c (int b) of
        None \<Rightarrow> None
      | Some val \<Rightarrow> store_byte out (IMG_BYTE cols r c (int b)) val)"

definition pixel_body ::
  "image_t \<Rightarrow> kernel_t \<Rightarrow> int \<Rightarrow> int \<Rightarrow> int \<Rightarrow> int \<Rightarrow> int \<Rightarrow> image_t \<Rightarrow> image_t option" where
  "pixel_body inp k rws cols kernel_norm r c out =
     for_each (channel_step inp k rws cols kernel_norm r c) [0..<BYTES_PER_PIXEL] out"

text \<open>The two loops over pixels (lines 148 and 149). Their state is the variable
  \<open>c_start\<close>, which the body of the inner loop sets to 0, and the state \<open>s\<close> of the
  body.\<close>

function col_loop ::
  "(int \<Rightarrow> int \<Rightarrow> 's \<Rightarrow> 's option) \<Rightarrow> int \<Rightarrow> int \<Rightarrow> int \<Rightarrow> int \<Rightarrow> int \<times> 's \<Rightarrow> (int \<times> 's) option" where
  "col_loop body cols next_section_offset r c (c_start, s) =
     (if IMG_BYTE cols r c 0 \<le> next_section_offset \<and> c < cols
      then (case body r c s of
              None \<Rightarrow> None
            | Some s' \<Rightarrow> col_loop body cols next_section_offset r (c + 1) (0, s'))
      else Some (c_start, s))"
  by pat_completeness auto
termination
  by (relation "measure (\<lambda>(body, cols, nxt, r, c, st). nat (cols - c))") auto

function row_loop ::
  "(int \<Rightarrow> int \<Rightarrow> 's \<Rightarrow> 's option) \<Rightarrow> int \<Rightarrow> int \<Rightarrow> int \<Rightarrow> int \<Rightarrow> int \<times> 's \<Rightarrow> (int \<times> 's) option" where
  "row_loop body rws cols next_section_offset r (c_start, s) =
     (if IMG_BYTE cols r 0 0 \<le> next_section_offset \<and> r < rws
      then (case col_loop body cols next_section_offset r (0 + c_start) (c_start, s) of
              None \<Rightarrow> None
            | Some st \<Rightarrow> row_loop body rws cols next_section_offset (r + 1) st)
      else Some (c_start, s))"
  by pat_completeness auto
termination
  by (relation "measure (\<lambda>(body, rws, cols, nxt, r, st). nat (rws - r))") auto

text \<open>The start of the worker (lines 140 to 146).\<close>

definition current_section_offset :: "thread_arguments_t \<Rightarrow> int" where
  "current_section_offset arguments = section_size arguments * thread_id arguments"

definition next_section_offset :: "thread_arguments_t \<Rightarrow> int" where
  "next_section_offset arguments = current_section_offset arguments + section_size arguments"

definition r_start :: "thread_arguments_t \<Rightarrow> int" where
  "r_start arguments =
     current_section_offset arguments sdiv (BYTES_PER_PIXEL * sint (columns (input arguments)))"

definition c_start :: "thread_arguments_t \<Rightarrow> int" where
  "c_start arguments =
     (if r_start arguments \<noteq> 0
      then (current_section_offset arguments
              - BYTES_PER_PIXEL * sint (columns (input arguments)) * r_start arguments)
             sdiv BYTES_PER_PIXEL + 1
      else 0)"

text \<open>The loops of \<open>convolve\<close> around a body: \<open>None\<close> when line 142 divides by zero or
  the body fails.\<close>

definition convolve_loops ::
  "(int \<Rightarrow> int \<Rightarrow> 's \<Rightarrow> 's option) \<Rightarrow> thread_arguments_t \<Rightarrow> 's \<Rightarrow> 's option" where
  "convolve_loops body arguments s =
     (let cols = sint (columns (input arguments));
          rws = sint (rows (input arguments))
      in if BYTES_PER_PIXEL * cols = 0 then None
         else map_option snd
                (row_loop body rws cols (next_section_offset arguments) (r_start arguments)
                   (c_start arguments, s)))"

text \<open>\<open>convolve\<close>: the worker, returning the output image it has written into.\<close>

definition convolve :: "thread_arguments_t \<Rightarrow> image_t option" where
  "convolve arguments =
     (let inp = input arguments;
          cols = sint (columns inp);
          rws = sint (rows inp);
          kernel_norm = normalize_kernel (kernel arguments)
      in convolve_loops (pixel_body inp (kernel arguments) rws cols kernel_norm)
           arguments (output arguments))"

text \<open>The pixels a worker processes, in order: the same loops around a body that
  records \<open>(r, c)\<close>.\<close>

definition processed :: "thread_arguments_t \<Rightarrow> (int \<times> int) list" where
  "processed arguments =
     (case convolve_loops (\<lambda>r c ps. Some (ps @ [(r, c)])) arguments [] of
        None \<Rightarrow> [] | Some ps \<Rightarrow> ps)"

section \<open>The threads of \<open>main\<close>\<close>

text \<open>Lines 347 to 351: the arguments of thread \<open>i\<close>. The section size is computed in
  \<open>unsigned int\<close> and stored in an \<open>int\<close>.\<close>

definition thread_arguments ::
  "image_t \<Rightarrow> image_t \<Rightarrow> kernel_t \<Rightarrow> int \<Rightarrow> int \<Rightarrow> thread_arguments_t" where
  "thread_arguments inp out k number_of_threads i =
     \<lparr>thread_id = i,
      section_size =
        sint (IMG_BYTE (columns inp) (rows inp) (columns inp) BYTES_PER_PIXEL
                div (word_of_int number_of_threads :: 32 word)),
      input = inp, output = out, kernel = k\<rparr>"

text \<open>Lines 345 to 362: the threads are created, run and joined. Every worker reads
  the input image only, and the byte it stores at an offset depends on the input image
  and the offset only. The model runs the workers one after the other, each on the
  output image the earlier ones left; \<open>run_workers\<close> does so in a given order of the
  thread numbers and \<open>run_threads\<close> in the order of creation. The buffer after the last
  worker does not depend on the order (\<open>run_workers_schedule\<close> below).\<close>

definition run_workers ::
  "image_t \<Rightarrow> image_t \<Rightarrow> kernel_t \<Rightarrow> int \<Rightarrow> nat list \<Rightarrow> image_t option" where
  "run_workers inp out k number_of_threads ids =
     for_each (\<lambda>i out. convolve (thread_arguments inp out k number_of_threads (int i))) ids out"

definition run_threads :: "image_t \<Rightarrow> image_t \<Rightarrow> kernel_t \<Rightarrow> int \<Rightarrow> image_t option" where
  "run_threads inp out k number_of_threads =
     run_workers inp out k number_of_threads [0..<nat number_of_threads]"

section \<open>Well-formed inputs\<close>

text \<open>The images the program is defined on: at least one row and one column, and the
  byte extent that \<open>main\<close> divides among the threads fits into an \<open>int\<close>, so that no
  conversion between \<open>unsigned int\<close> and \<open>int\<close> changes a value.\<close>

definition dims_ok :: "image_t \<Rightarrow> bool" where
  "dims_ok img \<longleftrightarrow>
     1 \<le> uint (rows img) \<and> 1 \<le> uint (columns img) \<and>
     4 * uint (rows img) * uint (columns img) + 4 * uint (columns img) + 4 \<le> 2147483647"

text \<open>A decoded image: its buffer holds four bytes for each pixel.\<close>

definition image_ok :: "image_t \<Rightarrow> bool" where
  "image_ok img \<longleftrightarrow>
     dims_ok img \<and> int (length (pixels img)) = 4 * uint (rows img) * uint (columns img)"

text \<open>The output image that \<open>init_image\<close> allocates for an input image (line 336): the
  same dimensions and a buffer of the same size, whose bytes are not initialised.\<close>

definition same_shape :: "image_t \<Rightarrow> image_t \<Rightarrow> bool" where
  "same_shape out inp \<longleftrightarrow>
     rows out = rows inp \<and> columns out = columns inp
     \<and> length (pixels out) = length (pixels inp)"

text \<open>Kernels whose arithmetic stays inside the range of \<open>int\<close>: the sum of the
  absolute values of the nine weights bounds every partial sum of \<open>normalize_kernel\<close>,
  and 255 times it bounds every product and every partial sum of the accumulation over
  the nine taps, whatever the pixel bytes are.\<close>

definition abs_weight_sum :: "kernel_t \<Rightarrow> int" where
  "abs_weight_sum k = (\<Sum>r = 0..<3. \<Sum>c = 0..<3. \<bar>k ! r ! c\<bar>)"

definition weights_fit :: "kernel_t \<Rightarrow> bool" where
  "weights_fit k \<longleftrightarrow> abs_weight_sum k \<le> 2147483647"

definition taps_fit :: "kernel_t \<Rightarrow> bool" where
  "taps_fit k \<longleftrightarrow> 255 * abs_weight_sum k \<le> 2147483647"

text \<open>A pixel position inside the image.\<close>

definition in_image :: "image_t \<Rightarrow> int \<times> int \<Rightarrow> bool" where
  "in_image img p \<longleftrightarrow>
     0 \<le> fst p \<and> fst p < uint (rows img) \<and> 0 \<le> snd p \<and> snd p < uint (columns img)"

section \<open>The wording of the specification\<close>

text \<open>The sum of the nine weights of a kernel, as the specification words the
  normalization factor.\<close>

definition weight_sum :: "kernel_t \<Rightarrow> int" where
  "weight_sum k = (\<Sum>r = 0..<3. \<Sum>c = 0..<3. k ! r ! c)"

text \<open>The per-pixel algorithm in the words of the specification: the addressing
  formula of the pixel buffer, the clamp into a range, and the value of a colour
  channel (nine taps at the clamped coordinates, truncating division by the
  normalization factor, clamp into 0 to 255).\<close>

definition clamp_to_range :: "int \<Rightarrow> int \<Rightarrow> int \<Rightarrow> int" where
  "clamp_to_range v lo hi = max lo (min hi v)"

definition input_channel :: "image_t \<Rightarrow> int \<Rightarrow> int \<Rightarrow> int \<Rightarrow> int" where
  "input_channel inp r c b = uint (pixels inp ! nat (uint (columns inp) * 4 * r + 4 * c + b))"

definition spec_channel :: "image_t \<Rightarrow> kernel_t \<Rightarrow> int \<Rightarrow> int \<Rightarrow> int \<Rightarrow> int" where
  "spec_channel inp k r c b =
     clamp_to_range
       ((\<Sum>kr = 0..<3. \<Sum>kc = 0..<3.
           k ! kr ! kc *
             input_channel inp (clamp_to_range (r + int kr - 1) 0 (uint (rows inp) - 1))
               (clamp_to_range (c + int kc - 1) 0 (uint (columns inp) - 1)) b)
          sdiv (if weight_sum k = 0 then 1 else weight_sum k))
       0 255"

section \<open>The iteration space of the loops\<close>

text \<open>The pixels that the guards of the two loops let through, as lists: the bodies
  of \<open>col_loop\<close> and \<open>row_loop\<close> run on exactly these pixels, in this order
  (\<open>col_loop_cells\<close> and \<open>row_loop_cells\<close> below).\<close>

function col_cells :: "int \<Rightarrow> int \<Rightarrow> int \<Rightarrow> int \<Rightarrow> (int \<times> int) list" where
  "col_cells cols nxt r c =
     (if IMG_BYTE cols r c 0 \<le> nxt \<and> c < cols then (r, c) # col_cells cols nxt r (c + 1)
      else [])"
  by pat_completeness auto
termination
  by (relation "measure (\<lambda>(cols, nxt, r, c). nat (cols - c))") auto

function row_cells :: "int \<Rightarrow> int \<Rightarrow> int \<Rightarrow> int \<Rightarrow> int \<Rightarrow> (int \<times> int) list" where
  "row_cells rws cols nxt r cs =
     (if IMG_BYTE cols r 0 0 \<le> nxt \<and> r < rws
      then col_cells cols nxt r cs
             @ row_cells rws cols nxt (r + 1)
                 (if IMG_BYTE cols r cs 0 \<le> nxt \<and> cs < cols then 0 else cs)
      else [])"
  by pat_completeness auto
termination
  by (relation "measure (\<lambda>(rws, cols, nxt, r, cs). nat (rws - r))") auto

text \<open>The iteration in the words of the specification: the first row from the start
  column, every later row from column 0, until the offset of the pixel exceeds the upper
  bound or the row index reaches \<open>rows\<close>.\<close>

function spec_cells :: "int \<Rightarrow> int \<Rightarrow> int \<Rightarrow> int \<Rightarrow> int \<Rightarrow> (int \<times> int) list" where
  "spec_cells rws cols nxt r cs =
     (if IMG_BYTE cols r 0 0 \<le> nxt \<and> r < rws
      then col_cells cols nxt r cs @ spec_cells rws cols nxt (r + 1) 0
      else [])"
  by pat_completeness auto
termination
  by (relation "measure (\<lambda>(rws, cols, nxt, r, cs). nat (rws - r))") auto

text \<open>The byte that the worker stores for channel \<open>b\<close> of pixel \<open>(r, c)\<close>, and the
  output image after the four stores of one pixel.\<close>

definition written :: "image_t \<Rightarrow> kernel_t \<Rightarrow> int \<Rightarrow> int \<Rightarrow> int \<Rightarrow> pixel_t" where
  "written inp k r c b =
     word_of_int (the (channel_value inp k (sint (rows inp)) (sint (columns inp))
                         (normalize_kernel k) r c b))"

definition put_pixel :: "image_t \<Rightarrow> kernel_t \<Rightarrow> int \<Rightarrow> int \<Rightarrow> image_t \<Rightarrow> image_t" where
  "put_pixel inp k r c out =
     out\<lparr>pixels := (pixels out)
       [nat (IMG_BYTE (uint (columns inp)) r c 0) := written inp k r c 0,
        nat (IMG_BYTE (uint (columns inp)) r c 1) := written inp k r c 1,
        nat (IMG_BYTE (uint (columns inp)) r c 2) := written inp k r c 2,
        nat (IMG_BYTE (uint (columns inp)) r c 3) := written inp k r c 3]\<rparr>"

section \<open>Concrete inputs\<close>

definition identity_kernel :: kernel_t where
  "identity_kernel = [[0, 0, 0], [0, 1, 0], [0, 0, 0]]"

definition image_1x1 :: image_t where
  "image_1x1 = \<lparr>pixels = [10, 20, 30, 40], rows = 1, columns = 1\<rparr>"

definition blank_1x1 :: image_t where
  "blank_1x1 = \<lparr>pixels = [0, 0, 0, 0], rows = 1, columns = 1\<rparr>"

definition gaussian_blur_kernel :: kernel_t where
  "gaussian_blur_kernel = [[1, 2, 1], [2, 4, 2], [1, 2, 1]]"

definition image_2x2 :: image_t where
  "image_2x2 = \<lparr>pixels = [1, 2, 3, 4, 5, 6, 7, 8, 9, 10, 11, 12, 13, 14, 15, 16],
                 rows = 2, columns = 2\<rparr>"

definition blank_2x2 :: image_t where
  "blank_2x2 = \<lparr>pixels = replicate 16 0, rows = 2, columns = 2\<rparr>"

definition image_8x4 :: image_t where
  "image_8x4 = \<lparr>pixels = replicate 128 255, rows = 8, columns = 4\<rparr>"

definition blank_8x4 :: image_t where
  "blank_8x4 = \<lparr>pixels = replicate 128 0, rows = 8, columns = 4\<rparr>"

definition stale_8x4 :: image_t where
  "stale_8x4 = \<lparr>pixels = replicate 128 7, rows = 8, columns = 4\<rparr>"

definition image_1x4 :: image_t where
  "image_1x4 = \<lparr>pixels = replicate 16 255, rows = 1, columns = 4\<rparr>"

definition blank_1x4 :: image_t where
  "blank_1x4 = \<lparr>pixels = replicate 16 0, rows = 1, columns = 4\<rparr>"

declare col_cells.simps [simp del] row_cells.simps [simp del] spec_cells.simps [simp del]
declare col_loop.simps [simp del] row_loop.simps [simp del]

section \<open>Basic facts\<close>

lemma upt_KERNEL_DIM: "[0..<KERNEL_DIM] = [0, 1, 2]"
  by (simp add: KERNEL_DIM_def upt_rec)

lemma upt_BYTES_PER_PIXEL: "[0..<BYTES_PER_PIXEL] = [0, 1, 2, 3]"
  by (simp add: BYTES_PER_PIXEL_def upt_rec)

lemma weight_sum_unfold:
  "weight_sum k = k ! 0 ! 0 + k ! 0 ! 1 + k ! 0 ! 2 + k ! 1 ! 0 + k ! 1 ! 1 + k ! 1 ! 2
     + k ! 2 ! 0 + k ! 2 ! 1 + k ! 2 ! 2"
  by (simp add: weight_sum_def eval_nat_numeral sum.atLeast0_lessThan_Suc)

lemma sint_small: "uint (w :: 32 word) \<le> 2147483647 \<Longrightarrow> sint w = uint w"
proof -
  assume "uint w \<le> 2147483647"
  then have hi: "uint w < 2 ^ 31"
    by simp
  have "(- (2 ^ 31) :: int) \<le> 0"
    by simp
  also have "0 \<le> uint w"
    by simp
  finally have "- (2 ^ 31) \<le> uint w" .
  from this hi have "signed_take_bit 31 (uint w) = uint w"
    by (rule signed_take_bit_int_eq_self)
  then show ?thesis by (simp add: sint_uint)
qed

lemma uint_extent:
  assumes "dims_ok inp"
  shows "uint (IMG_BYTE (columns inp) (rows inp) (columns inp) BYTES_PER_PIXEL) =
           uint (rows inp) * uint (columns inp) * 4 + 4 * uint (columns inp) + 4"
proof -
  let ?R = "uint (rows inp)" and ?C = "uint (columns inp)"
  have b: "0 \<le> ?C * 4 * ?R + 4 * ?C + 4" "?C * 4 * ?R + 4 * ?C + 4 < 2 ^ 32"
    using assms by (simp_all add: dims_ok_def algebra_simps)
  have "uint (IMG_BYTE (columns inp) (rows inp) (columns inp) BYTES_PER_PIXEL) =
          (?C * 4 * ?R + 4 * ?C + 4) mod 2 ^ 32"
    by (simp add: IMG_BYTE_def BYTES_PER_PIXEL_def uint_word_ariths mod_simps)
  also have "\<dots> = ?C * 4 * ?R + 4 * ?C + 4"
    using b by (simp only: mod_pos_pos_trivial)
  finally show ?thesis by (simp add: algebra_simps)
qed

lemma section_size_value:
  assumes "dims_ok inp" "1 \<le> n" "n \<le> 2147483647"
  shows "section_size (thread_arguments inp out k n i) =
           (uint (rows inp) * uint (columns inp) * 4 + 4 * uint (columns inp) + 4) div n"
proof -
  let ?T = "uint (rows inp) * uint (columns inp) * 4 + 4 * uint (columns inp) + 4"
  let ?w = "IMG_BYTE (columns inp) (rows inp) (columns inp) BYTES_PER_PIXEL
              div (word_of_int n :: 32 word)"
  have n: "uint (word_of_int n :: 32 word) = n"
    using assms(2,3) by (simp add: uint_word_of_int)
  have u: "uint ?w = ?T div n"
    by (simp add: uint_div uint_extent [OF assms(1)] n)
  have "0 \<le> ?T" "?T \<le> 2147483647"
    using assms(1) by (simp_all add: dims_ok_def algebra_simps)
  then have "?T div n \<le> 2147483647"
    using assms(2) by (smt (verit) div_by_1 zdiv_mono2)
  then have "sint ?w = ?T div n"
    using u by (simp add: sint_small)
  then show ?thesis by (simp add: thread_arguments_def)
qed

section \<open>Arithmetic with wrap-around\<close>

lemma int_wrap_id: "- 2147483648 \<le> x \<Longrightarrow> x \<le> 2147483647 \<Longrightarrow> int_wrap x = x"
  by (simp add: int_wrap_def)

lemma int_wrap_abs: "\<bar>x\<bar> \<le> 2147483647 \<Longrightarrow> int_wrap x = x"
  by (rule int_wrap_id) simp_all

lemma abs_weight_sum_unfold:
  "abs_weight_sum k = \<bar>k ! 0 ! 0\<bar> + \<bar>k ! 0 ! 1\<bar> + \<bar>k ! 0 ! 2\<bar> + \<bar>k ! 1 ! 0\<bar> + \<bar>k ! 1 ! 1\<bar>
     + \<bar>k ! 1 ! 2\<bar> + \<bar>k ! 2 ! 0\<bar> + \<bar>k ! 2 ! 1\<bar> + \<bar>k ! 2 ! 2\<bar>"
  by (simp add: abs_weight_sum_def eval_nat_numeral sum.atLeast0_lessThan_Suc)

text \<open>Adding a list of weights with wrap-around, when the absolute values fit.\<close>

lemma fold_wrap_add:
  "\<bar>s\<bar> + sum_list (map abs ws) \<le> 2147483647 \<Longrightarrow>
     fold (\<lambda>w s. int_wrap (s + w)) ws s = s + sum_list ws"
proof (induction ws arbitrary: s)
  case Nil
  then show ?case by simp
next
  case (Cons w ws)
  have nn: "0 \<le> sum_list (map abs ws)"
    by (rule sum_list_nonneg) auto
  have "\<bar>s + w\<bar> \<le> \<bar>s\<bar> + \<bar>w\<bar>"
    by (rule abs_triangle_ineq)
  then have b: "\<bar>s + w\<bar> + sum_list (map abs ws) \<le> 2147483647"
    using Cons.prems by simp
  then have "\<bar>s + w\<bar> \<le> 2147483647"
    using nn by linarith
  then have "int_wrap (s + w) = s + w"
    by (rule int_wrap_abs)
  then show ?case
    using Cons.IH [OF b] by simp
qed

lemma normalize_kernel_fits:
  assumes "weights_fit k"
  shows "normalize_kernel k = (if weight_sum k = 0 then 1 else weight_sum k)"
proof -
  let ?ws = "[k ! 0 ! 0, k ! 0 ! 1, k ! 0 ! 2, k ! 1 ! 0, k ! 1 ! 1, k ! 1 ! 2,
              k ! 2 ! 0, k ! 2 ! 1, k ! 2 ! 2]"
  have "\<bar>0::int\<bar> + sum_list (map abs ?ws) \<le> 2147483647"
    using assms by (simp add: weights_fit_def abs_weight_sum_unfold)
  then have "fold (\<lambda>w s. int_wrap (s + w)) ?ws 0 = 0 + sum_list ?ws"
    by (rule fold_wrap_add)
  then have "fold (\<lambda>r norm. fold (\<lambda>c norm. int_wrap (norm + k ! r ! c)) [0..<KERNEL_DIM] norm)
      [0..<KERNEL_DIM] 0 = weight_sum k"
    by (simp add: upt_KERNEL_DIM weight_sum_unfold)
  then show ?thesis
    by (simp add: normalize_kernel_def Let_def)
qed

lemma normalize_kernel_nonzero: "normalize_kernel k \<noteq> 0"
  by (simp add: normalize_kernel_def Let_def)

lemma normalize_kernel_weights:
  assumes "\<And>r c. r < 3 \<Longrightarrow> c < 3 \<Longrightarrow> k ! r ! c = k' ! r ! c"
  shows "normalize_kernel k = normalize_kernel k'"
  by (simp add: normalize_kernel_def upt_KERNEL_DIM assms)

text \<open>Adding the nine products with wrap-around, when 255 times the absolute values of
  the weights fits.\<close>

lemma fold_wrap_taps:
  "\<forall>(w, p) \<in> set wps. 0 \<le> p \<and> p \<le> 255 \<Longrightarrow>
   \<bar>v\<bar> + 255 * sum_list (map (\<lambda>(w, p). \<bar>w\<bar>) wps) \<le> 2147483647 \<Longrightarrow>
     fold (\<lambda>(w, p) v. int_wrap (v + int_wrap (w * p))) wps v = v + sum_list (map (\<lambda>(w, p). w * p) wps)
   \<and> \<bar>v + sum_list (map (\<lambda>(w, p). w * p) wps)\<bar> \<le> \<bar>v\<bar> + 255 * sum_list (map (\<lambda>(w, p). \<bar>w\<bar>) wps)"
proof (induction wps arbitrary: v)
  case Nil
  then show ?case by simp
next
  case (Cons a wps)
  obtain w p where a: "a = (w, p)" by (cases a)
  let ?A = "sum_list (map (\<lambda>(w, p). \<bar>w\<bar>) wps)"
  let ?S = "sum_list (map (\<lambda>(w, p). w * p) wps)"
  have p: "0 \<le> p" "p \<le> 255"
    using Cons.prems(1) a by simp_all
  have nn: "0 \<le> ?A"
    by (rule sum_list_nonneg) auto
  have "\<bar>w * p\<bar> = \<bar>w\<bar> * p"
    using p by (simp add: abs_mult)
  also have "\<dots> \<le> \<bar>w\<bar> * 255"
    using p by (intro mult_left_mono) auto
  finally have t: "\<bar>w * p\<bar> \<le> 255 * \<bar>w\<bar>"
    by simp
  have tot: "\<bar>v\<bar> + 255 * \<bar>w\<bar> + 255 * ?A \<le> 2147483647"
    using Cons.prems(2) a by (simp add: algebra_simps)
  have "\<bar>w * p\<bar> \<le> 2147483647"
    using t tot nn by linarith
  then have w1: "int_wrap (w * p) = w * p"
    by (rule int_wrap_abs)
  have s: "\<bar>v + w * p\<bar> \<le> \<bar>v\<bar> + 255 * \<bar>w\<bar>"
    using t abs_triangle_ineq [of v "w * p"] by linarith
  then have "\<bar>v + w * p\<bar> \<le> 2147483647"
    using tot nn by linarith
  then have w2: "int_wrap (v + w * p) = v + w * p"
    by (rule int_wrap_abs)
  have b: "\<bar>v + w * p\<bar> + 255 * ?A \<le> 2147483647"
    using s tot by linarith
  have rest: "\<forall>(w, p) \<in> set wps. 0 \<le> p \<and> p \<le> 255"
    using Cons.prems(1) by simp
  from Cons.IH [OF rest b] have
    ih1: "fold (\<lambda>(w, p) v. int_wrap (v + int_wrap (w * p))) wps (v + w * p) = v + w * p + ?S"
    and ih2: "\<bar>v + w * p + ?S\<bar> \<le> \<bar>v + w * p\<bar> + 255 * ?A"
    by simp_all
  have "fold (\<lambda>(w, p) v. int_wrap (v + int_wrap (w * p))) (a # wps) v =
      fold (\<lambda>(w, p) v. int_wrap (v + int_wrap (w * p))) wps (int_wrap (v + int_wrap (w * p)))"
    by (simp add: a)
  also have "\<dots> = v + w * p + ?S"
    by (simp only: w1 w2 ih1)
  finally have e: "fold (\<lambda>(w, p) v. int_wrap (v + int_wrap (w * p))) (a # wps) v =
      v + sum_list (map (\<lambda>(w, p). w * p) (a # wps))"
    by (simp add: a)
  have "\<bar>v + sum_list (map (\<lambda>(w, p). w * p) (a # wps))\<bar> = \<bar>v + w * p + ?S\<bar>"
    by (simp add: a)
  also have "\<dots> \<le> \<bar>v\<bar> + 255 * \<bar>w\<bar> + 255 * ?A"
    using ih2 s by linarith
  also have "\<dots> = \<bar>v\<bar> + 255 * sum_list (map (\<lambda>(w, p). \<bar>w\<bar>) (a # wps))"
    by (simp add: a)
  finally show ?case
    using e by simp
qed

lemma abs_sdiv_le: "\<bar>a sdiv b\<bar> \<le> \<bar>a :: int\<bar>"
proof -
  have d: "0 \<le> \<bar>a\<bar> div \<bar>b\<bar>"
    by (simp add: pos_imp_zdiv_nonneg_iff div_int_pos_iff)
  have "\<bar>a sdiv b\<bar> = \<bar>sgn a\<bar> * \<bar>sgn b\<bar> * (\<bar>a\<bar> div \<bar>b\<bar>)"
    using d by (simp add: signed_divide_int_def abs_mult)
  also have "\<dots> \<le> \<bar>a\<bar> div \<bar>b\<bar>"
    by (cases "a = 0"; cases "b = 0") (simp_all add: abs_sgn_eq)
  also have "\<dots> \<le> \<bar>a\<bar>"
  proof (cases "b = 0")
    case True
    then show ?thesis by simp
  next
    case False
    then have "\<bar>a\<bar> div \<bar>b\<bar> \<le> \<bar>a\<bar> div 1"
      by (intro zdiv_mono2) auto
    then show ?thesis by simp
  qed
  finally show ?thesis .
qed

section \<open>The loops run their body on the iteration space\<close>

lemma for_each_append:
  "for_each f (xs @ ys) s =
     (case for_each f xs s of None \<Rightarrow> None | Some s' \<Rightarrow> for_each f ys s')"
  by (induction xs arbitrary: s) (auto split: option.splits)

lemma col_loop_stop:
  "\<not> (IMG_BYTE cols r c 0 \<le> nxt \<and> c < cols) \<Longrightarrow>
     col_loop body cols nxt r c (cs, s) = Some (cs, s)"
  by (subst col_loop.simps) auto

lemma col_loop_step:
  "IMG_BYTE cols r c 0 \<le> nxt \<and> c < cols \<Longrightarrow>
     col_loop body cols nxt r c (cs, s) =
       (case body r c s of None \<Rightarrow> None
        | Some s' \<Rightarrow> col_loop body cols nxt r (c + 1) (0, s'))"
  by (subst col_loop.simps) auto

lemma col_cells_stop:
  "\<not> (IMG_BYTE cols r c 0 \<le> nxt \<and> c < cols) \<Longrightarrow> col_cells cols nxt r c = []"
  by (subst col_cells.simps) auto

lemma col_cells_step:
  "IMG_BYTE cols r c 0 \<le> nxt \<and> c < cols \<Longrightarrow>
     col_cells cols nxt r c = (r, c) # col_cells cols nxt r (c + 1)"
  by (subst col_cells.simps) auto

lemma row_loop_stop:
  "\<not> (IMG_BYTE cols r 0 0 \<le> nxt \<and> r < rws) \<Longrightarrow>
     row_loop body rws cols nxt r (cs, s) = Some (cs, s)"
  by (subst row_loop.simps) auto

lemma row_loop_step:
  "IMG_BYTE cols r 0 0 \<le> nxt \<and> r < rws \<Longrightarrow>
     row_loop body rws cols nxt r (cs, s) =
       (case col_loop body cols nxt r (0 + cs) (cs, s) of None \<Rightarrow> None
        | Some st \<Rightarrow> row_loop body rws cols nxt (r + 1) st)"
  by (subst row_loop.simps) auto

lemma row_cells_stop:
  "\<not> (IMG_BYTE cols r 0 0 \<le> nxt \<and> r < rws) \<Longrightarrow> row_cells rws cols nxt r cs = []"
  by (subst row_cells.simps) auto

lemma row_cells_step:
  "IMG_BYTE cols r 0 0 \<le> nxt \<and> r < rws \<Longrightarrow>
     row_cells rws cols nxt r cs =
       col_cells cols nxt r cs
         @ row_cells rws cols nxt (r + 1)
             (if IMG_BYTE cols r cs 0 \<le> nxt \<and> cs < cols then 0 else cs)"
  by (subst row_cells.simps) auto

lemma col_loop_cells:
  "col_loop body cols nxt r c (cs, s) =
     map_option (Pair (if IMG_BYTE cols r c 0 \<le> nxt \<and> c < cols then 0 else cs))
       (for_each (\<lambda>(r, c). body r c) (col_cells cols nxt r c) s)"
proof (induction body cols nxt r c "(cs, s)" arbitrary: cs s rule: col_loop.induct)
  case (1 body cols nxt r c cs s)
  show ?case
  proof (cases "IMG_BYTE cols r c 0 \<le> nxt \<and> c < cols")
    case False
    show ?thesis
      using False col_loop_stop [OF False, of body cs s] col_cells_stop [OF False] by auto
  next
    case True
    show ?thesis
    proof (cases "body r c s")
      case None
      with True show ?thesis
        by (simp add: col_loop_step col_cells_step)
    next
      case (Some s')
      have "col_loop body cols nxt r c (cs, s) = col_loop body cols nxt r (c + 1) (0, s')"
        using True Some by (simp add: col_loop_step)
      also have "\<dots> = map_option (Pair 0)
          (for_each (\<lambda>(r, c). body r c) (col_cells cols nxt r (c + 1)) s')"
        using "1" [OF True Some] by simp
      also have "\<dots> = map_option (Pair 0)
          (for_each (\<lambda>(r, c). body r c) (col_cells cols nxt r c) s)"
        using True Some by (simp add: col_cells_step)
      finally show ?thesis using True by simp
    qed
  qed
qed

lemma row_loop_cells:
  "map_option snd (row_loop body rws cols nxt r (cs, s)) =
     for_each (\<lambda>(r, c). body r c) (row_cells rws cols nxt r cs) s"
proof (induction body rws cols nxt r "(cs, s)" arbitrary: cs s rule: row_loop.induct)
  case (1 body rws cols nxt r cs s)
  show ?case
  proof (cases "IMG_BYTE cols r 0 0 \<le> nxt \<and> r < rws")
    case False
    show ?thesis
      using row_loop_stop [OF False, of body cs s] row_cells_stop [OF False] by simp
  next
    case True
    let ?cs' = "if IMG_BYTE cols r cs 0 \<le> nxt \<and> cs < cols then 0 else cs"
    let ?f = "\<lambda>(r, c). body r c"
    show ?thesis
    proof (cases "for_each ?f (col_cells cols nxt r cs) s")
      case None
      then have "col_loop body cols nxt r (0 + cs) (cs, s) = None"
        by (simp add: col_loop_cells)
      then show ?thesis
        using True None
        by (simp add: row_loop_step row_cells_step for_each_append)
    next
      case (Some s')
      then have c: "col_loop body cols nxt r (0 + cs) (cs, s) = Some (?cs', s')"
        by (simp add: col_loop_cells)
      have "map_option snd (row_loop body rws cols nxt r (cs, s)) =
              map_option snd (row_loop body rws cols nxt (r + 1) (?cs', s'))"
        using True c by (simp add: row_loop_step)
      also have "\<dots> = for_each ?f (row_cells rws cols nxt (r + 1) ?cs') s'"
        using "1" [OF True c] by simp
      also have "\<dots> = for_each ?f (row_cells rws cols nxt r cs) s"
        using True Some by (simp add: row_cells_step for_each_append)
      finally show ?thesis .
    qed
  qed
qed

lemma for_each_record:
  "for_each (\<lambda>(r, c) ps. Some (ps @ [(r, c)])) xs acc = Some (acc @ xs)"
  by (induction xs arbitrary: acc) auto

section \<open>Offsets\<close>

lemma IMG_BYTE_int: "IMG_BYTE cols r c b = 4 * (cols * r + c) + (b::int)"
  by (simp add: IMG_BYTE_def BYTES_PER_PIXEL_def algebra_simps)

lemma IMG_BYTE_lower:
  fixes cols :: int
  assumes "0 \<le> cols" "0 \<le> r" "0 \<le> c" "0 \<le> b"
  shows "0 \<le> IMG_BYTE cols r c b"
  using assms by (simp add: IMG_BYTE_int)

lemma IMG_BYTE_upper:
  fixes cols :: int
  assumes "0 \<le> r" "r < rws" "0 \<le> c" "c < cols" "b < 4"
  shows "IMG_BYTE cols r c b < 4 * rws * cols"
proof -
  have "cols * r \<le> cols * (rws - 1)"
    using assms by (intro mult_left_mono) auto
  then have "cols * r + c \<le> cols * rws - 1"
    using assms by (simp add: algebra_simps)
  then show ?thesis
    using assms by (simp add: IMG_BYTE_int algebra_simps)
qed

lemma pixel_index_inj:
  fixes cols :: int
  assumes "0 \<le> c" "c < cols" "0 \<le> c'" "c' < cols" "cols * r + c = cols * r' + c'"
  shows "r = r' \<and> c = c'"
proof -
  have "(cols * r + c) div cols = r" "(cols * r' + c') div cols = r'"
    using assms(1-4) by simp_all
  then have "r = r'"
    using assms(5) by simp
  then show ?thesis
    using assms(5) by simp
qed

lemma IMG_BYTE_inj:
  fixes cols :: int
  assumes "0 \<le> c" "c < cols" "0 \<le> c'" "c' < cols" "0 \<le> b" "b < 4" "0 \<le> b'" "b' < 4"
    and "IMG_BYTE cols r c b = IMG_BYTE cols r' c' b'"
  shows "r = r' \<and> c = c' \<and> b = b'"
proof -
  have "4 * (cols * r + c) + b = 4 * (cols * r' + c') + b'"
    using assms(9) by (simp add: IMG_BYTE_int)
  then have "cols * r + c = cols * r' + c'" "b = b'"
    using assms(5-8) by presburger+
  then show ?thesis
    using pixel_index_inj [OF assms(1-4)] by simp
qed

lemma CLAMP_range: "lo \<le> hi \<Longrightarrow> lo \<le> CLAMP v lo hi \<and> CLAMP v lo hi \<le> hi"
  by (simp add: CLAMP_def)

lemma CLAMP_id: "lo \<le> v \<Longrightarrow> v \<le> hi \<Longrightarrow> CLAMP v lo hi = v"
  by (simp add: CLAMP_def)

section \<open>The value of a channel\<close>

lemma dims_sint:
  assumes "dims_ok img"
  shows "sint (rows img) = uint (rows img)" "sint (columns img) = uint (columns img)"
proof -
  let ?R = "uint (rows img)" and ?C = "uint (columns img)"
  have "?R * 1 \<le> ?R * ?C"
    using assms unfolding dims_ok_def by (intro mult_left_mono) auto
  then have "?R \<le> 2147483647" "?C \<le> 2147483647"
    using assms unfolding dims_ok_def by linarith+
  then show "sint (rows img) = ?R" "sint (columns img) = ?C"
    by (simp_all add: sint_small)
qed

lemma CLAMP_clamp_to_range: "lo \<le> hi \<Longrightarrow> CLAMP v lo hi = clamp_to_range v lo hi"
  by (simp add: CLAMP_def clamp_to_range_def)

lemma load_byte_in_range:
  assumes "image_ok inp" "0 \<le> r" "r < uint (rows inp)" "0 \<le> c" "c < uint (columns inp)"
    "0 \<le> b" "b < 4"
  shows "load_byte inp (IMG_BYTE (uint (columns inp)) r c b) = Some (input_channel inp r c b)"
proof -
  have "0 \<le> IMG_BYTE (uint (columns inp)) r c b"
    using assms by (intro IMG_BYTE_lower) auto
  moreover have "IMG_BYTE (uint (columns inp)) r c b < 4 * uint (rows inp) * uint (columns inp)"
    using assms by (intro IMG_BYTE_upper) auto
  ultimately show ?thesis
    using assms(1)
    by (simp add: load_byte_def image_ok_def input_channel_def)
       (simp add: IMG_BYTE_def BYTES_PER_PIXEL_def)
qed

lemma kernel_tap_value:
  assumes "image_ok inp" "0 \<le> b" "b < 4"
  shows "kernel_tap inp k (uint (rows inp)) (uint (columns inp)) r c b kr kc v =
     Some (int_wrap (v + int_wrap (k ! kr ! kc *
             input_channel inp (clamp_to_range (r + int kr - 1) 0 (uint (rows inp) - 1))
               (clamp_to_range (c + int kc - 1) 0 (uint (columns inp) - 1)) b)))"
proof -
  let ?R = "uint (rows inp)" and ?C = "uint (columns inp)"
  have d: "1 \<le> ?R" "1 \<le> ?C"
    using assms(1) by (simp_all add: image_ok_def dims_ok_def)
  let ?r = "clamp_to_range (r + int kr - 1) 0 (?R - 1)"
  let ?c = "clamp_to_range (c + int kc - 1) 0 (?C - 1)"
  have "0 \<le> ?r" "?r < ?R" "0 \<le> ?c" "?c < ?C"
    using d by (simp_all add: clamp_to_range_def)
  then have "load_byte inp (IMG_BYTE ?C ?r ?c b) = Some (input_channel inp ?r ?c b)"
    using assms by (intro load_byte_in_range) auto
  moreover have "CLAMP (r + (int kr - int (KERNEL_DIM div 2))) 0 (?R - 1) = ?r"
    "CLAMP (c + (int kc - int (KERNEL_DIM div 2))) 0 (?C - 1) = ?c"
    using d by (simp_all add: CLAMP_clamp_to_range KERNEL_DIM_def algebra_simps)
  ultimately show ?thesis
    by (simp add: kernel_tap_def Let_def)
qed

lemma input_channel_byte: "0 \<le> input_channel inp r c b \<and> input_channel inp r c b \<le> 255"
  using uint_lt2p [of "pixels inp ! nat (uint (columns inp) * 4 * r + 4 * c + b)"]
  by (simp add: input_channel_def)

lemma channel_value_defined:
  assumes "image_ok inp" "0 \<le> r" "r < uint (rows inp)" "0 \<le> c" "c < uint (columns inp)"
    "0 \<le> b" "b < 4"
  shows "\<exists>v. channel_value inp k (sint (rows inp)) (sint (columns inp)) kernel_norm r c b = Some v"
proof -
  have ok: "dims_ok inp"
    using assms(1) by (simp add: image_ok_def)
  show ?thesis
  proof (cases "b = ALPHA_OFFSET")
    case True
    then show ?thesis
      unfolding channel_value_def dims_sint [OF ok]
      using load_byte_in_range [OF assms] by simp
  next
    case False
    then show ?thesis
      unfolding channel_value_def dims_sint [OF ok]
      by (simp add: upt_KERNEL_DIM kernel_tap_value [OF assms(1,6,7)])
  qed
qed

lemma channel_value_colour:
  assumes "image_ok inp" "0 \<le> b" "b < 3" "taps_fit k"
  shows "channel_value inp k (sint (rows inp)) (sint (columns inp)) (normalize_kernel k) r c b =
           Some (spec_channel inp k r c b)"
proof -
  have ok: "dims_ok inp"
    using assms(1) by (simp add: image_ok_def)
  have b: "b \<noteq> ALPHA_OFFSET" "b < 4"
    using assms by (simp_all add: ALPHA_OFFSET_def)
  let ?p = "\<lambda>kr kc. input_channel inp (clamp_to_range (r + int kr - 1) 0 (uint (rows inp) - 1))
               (clamp_to_range (c + int kc - 1) 0 (uint (columns inp) - 1)) b"
  let ?wps = "[(k ! 0 ! 0, ?p 0 0), (k ! 0 ! 1, ?p 0 1), (k ! 0 ! 2, ?p 0 2),
               (k ! 1 ! 0, ?p 1 0), (k ! 1 ! 1, ?p 1 1), (k ! 1 ! 2, ?p 1 2),
               (k ! 2 ! 0, ?p 2 0), (k ! 2 ! 1, ?p 2 1), (k ! 2 ! 2, ?p 2 2)]"
  let ?S = "sum_list (map (\<lambda>(w, p). w * p) ?wps)"
  have A: "abs_weight_sum k = sum_list (map (\<lambda>(w, p). \<bar>w\<bar>) ?wps)"
    by (simp add: abs_weight_sum_unfold)
  have fit: "255 * abs_weight_sum k \<le> 2147483647"
    using assms(4) by (simp add: taps_fit_def)
  have "0 \<le> abs_weight_sum k"
    by (simp add: abs_weight_sum_unfold)
  then have wf: "weights_fit k"
    using fit by (simp add: weights_fit_def)
  have bytes: "\<forall>(w, p) \<in> set ?wps. 0 \<le> p \<and> p \<le> 255"
    by (simp add: input_channel_byte)
  have bound: "\<bar>0::int\<bar> + 255 * sum_list (map (\<lambda>(w, p). \<bar>w\<bar>) ?wps) \<le> 2147483647"
    using fit unfolding A by simp
  from fold_wrap_taps [OF bytes bound] have
    f: "fold (\<lambda>(w, p) v. int_wrap (v + int_wrap (w * p))) ?wps 0 = 0 + ?S"
    and s: "\<bar>0 + ?S\<bar> \<le> \<bar>0::int\<bar> + 255 * sum_list (map (\<lambda>(w, p). \<bar>w\<bar>) ?wps)"
    by blast+
  have taps: "for_each (\<lambda>kr. for_each (\<lambda>kc. kernel_tap inp k (uint (rows inp)) (uint (columns inp))
        r c b kr kc) [0..<KERNEL_DIM]) [0..<KERNEL_DIM] 0 =
      Some (fold (\<lambda>(w, p) v. int_wrap (v + int_wrap (w * p))) ?wps 0)"
    by (simp add: upt_KERNEL_DIM kernel_tap_value [OF assms(1,2) b(2)])
  have "\<bar>?S sdiv normalize_kernel k\<bar> \<le> \<bar>?S\<bar>"
    by (rule abs_sdiv_le)
  also have "\<dots> \<le> 2147483647"
    using s bound by linarith
  finally have q: "int_wrap (?S sdiv normalize_kernel k) = ?S sdiv normalize_kernel k"
    by (rule int_wrap_abs)
  have S: "?S = (\<Sum>kr = 0..<3. \<Sum>kc = 0..<3. k ! kr ! kc * ?p kr kc)"
    by (simp add: eval_nat_numeral sum.atLeast0_lessThan_Suc)
  have "channel_value inp k (sint (rows inp)) (sint (columns inp)) (normalize_kernel k) r c b =
      Some (CLAMP (int_wrap (?S sdiv normalize_kernel k)) 0 255)"
    unfolding channel_value_def dims_sint [OF ok] taps f using b by simp
  also have "\<dots> = Some (CLAMP (?S sdiv normalize_kernel k) 0 255)"
    by (simp only: q)
  also have "\<dots> = Some (spec_channel inp k r c b)"
    unfolding spec_channel_def normalize_kernel_fits [OF wf] S
    by (simp add: CLAMP_clamp_to_range)
  finally show ?thesis .
qed

lemma channel_value_alpha:
  assumes "image_ok inp" "0 \<le> r" "r < uint (rows inp)" "0 \<le> c" "c < uint (columns inp)"
  shows "channel_value inp k (sint (rows inp)) (sint (columns inp)) kernel_norm r c 3 =
           Some (input_channel inp r c 3)"
proof -
  have ok: "dims_ok inp"
    using assms(1) by (simp add: image_ok_def)
  show ?thesis
    unfolding channel_value_def dims_sint [OF ok]
    using load_byte_in_range [OF assms, of 3]
    by (simp add: ALPHA_OFFSET_def)
qed

section \<open>The stores of one pixel\<close>

lemma store_byte_in_range:
  "0 \<le> off \<Longrightarrow> off < int (length (pixels out)) \<Longrightarrow>
     store_byte out off v = Some (out\<lparr>pixels := (pixels out)[nat off := word_of_int v]\<rparr>)"
  by (simp add: store_byte_def)

lemma channel_step_result:
  assumes "image_ok inp" "same_shape out inp"
    "0 \<le> r" "r < uint (rows inp)" "0 \<le> c" "c < uint (columns inp)" "b < 4"
  shows "channel_step inp k (sint (rows inp)) (sint (columns inp)) (normalize_kernel k) r c b out =
           Some (out\<lparr>pixels := (pixels out)[nat (IMG_BYTE (uint (columns inp)) r c (int b)) :=
                   written inp k r c (int b)]\<rparr>)"
proof -
  have ok: "dims_ok inp"
    using assms(1) by (simp add: image_ok_def)
  have len: "int (length (pixels out)) = 4 * uint (rows inp) * uint (columns inp)"
    using assms(1,2) by (simp add: image_ok_def same_shape_def)
  have b: "0 \<le> int b" "int b < 4"
    using assms(7) by simp_all
  have lo: "0 \<le> IMG_BYTE (uint (columns inp)) r c (int b)"
    using assms b by (intro IMG_BYTE_lower) auto
  have hi: "IMG_BYTE (uint (columns inp)) r c (int b) < int (length (pixels out))"
    unfolding len using assms b by (intro IMG_BYTE_upper) auto
  from channel_value_defined [OF assms(1,3-6) b, of k "normalize_kernel k"] obtain v where
    "channel_value inp k (sint (rows inp)) (sint (columns inp)) (normalize_kernel k) r c (int b)
       = Some v"
    by blast
  then show ?thesis
    using store_byte_in_range [OF lo hi]
    by (simp add: channel_step_def written_def dims_sint(2) [OF ok])
qed

lemma same_shape_update:
  "same_shape out inp \<Longrightarrow> same_shape (out\<lparr>pixels := (pixels out)[j := w]\<rparr>) inp"
  by (simp add: same_shape_def)

lemma pixel_body_put_pixel:
  assumes "image_ok inp" "same_shape out inp"
    "0 \<le> r" "r < uint (rows inp)" "0 \<le> c" "c < uint (columns inp)"
  shows "pixel_body inp k (sint (rows inp)) (sint (columns inp)) (normalize_kernel k) r c out =
           Some (put_pixel inp k r c out)"
proof -
  note step = channel_step_result [OF assms(1) _ assms(3-6)]
  let ?o = "\<lambda>b. nat (IMG_BYTE (uint (columns inp)) r c b)"
  let ?w = "written inp k r c"
  let ?out1 = "out\<lparr>pixels := (pixels out)[?o 0 := ?w 0]\<rparr>"
  let ?out2 = "?out1\<lparr>pixels := (pixels ?out1)[?o 1 := ?w 1]\<rparr>"
  let ?out3 = "?out2\<lparr>pixels := (pixels ?out2)[?o 2 := ?w 2]\<rparr>"
  have s1: "same_shape ?out1 inp"
    using assms(2) by (rule same_shape_update)
  have s2: "same_shape ?out2 inp"
    using s1 by (rule same_shape_update)
  have s3: "same_shape ?out3 inp"
    using s2 by (rule same_shape_update)
  show ?thesis
    using step [OF assms(2), of 0 k] step [OF s1, of 1 k] step [OF s2, of 2 k]
      step [OF s3, of 3 k]
    by (simp add: pixel_body_def upt_BYTES_PER_PIXEL put_pixel_def)
qed

lemma put_pixel_shape:
  "same_shape out inp \<Longrightarrow> same_shape (put_pixel inp k r c out) inp"
  by (simp add: same_shape_def put_pixel_def)

lemma put_pixel_other:
  assumes "\<And>b. 0 \<le> b \<Longrightarrow> b < 4 \<Longrightarrow> j \<noteq> nat (IMG_BYTE (uint (columns inp)) r c b)"
  shows "pixels (put_pixel inp k r c out) ! j = pixels out ! j"
  using assms [of 0] assms [of 1] assms [of 2] assms [of 3]
  by (simp add: put_pixel_def)

lemma IMG_BYTE_nat:
  fixes cols :: int
  assumes "0 \<le> cols" "0 \<le> r" "0 \<le> c"
  shows "nat (IMG_BYTE cols r c 1) = nat (IMG_BYTE cols r c 0) + 1"
    "nat (IMG_BYTE cols r c 2) = nat (IMG_BYTE cols r c 0) + 2"
    "nat (IMG_BYTE cols r c 3) = nat (IMG_BYTE cols r c 0) + 3"
proof -
  have "0 \<le> IMG_BYTE cols r c 0"
    using assms by (intro IMG_BYTE_lower) auto
  moreover have "IMG_BYTE cols r c 1 = IMG_BYTE cols r c 0 + 1"
    "IMG_BYTE cols r c 2 = IMG_BYTE cols r c 0 + 2"
    "IMG_BYTE cols r c 3 = IMG_BYTE cols r c 0 + 3"
    by (simp_all add: IMG_BYTE_def)
  ultimately show "nat (IMG_BYTE cols r c 1) = nat (IMG_BYTE cols r c 0) + 1"
    "nat (IMG_BYTE cols r c 2) = nat (IMG_BYTE cols r c 0) + 2"
    "nat (IMG_BYTE cols r c 3) = nat (IMG_BYTE cols r c 0) + 3"
    by (simp_all add: nat_add_distrib)
qed

lemma put_pixel_own:
  assumes "image_ok inp" "same_shape out inp"
    "0 \<le> r" "r < uint (rows inp)" "0 \<le> c" "c < uint (columns inp)" "0 \<le> b" "b < 4"
  shows "pixels (put_pixel inp k r c out) ! nat (IMG_BYTE (uint (columns inp)) r c b) =
           written inp k r c b"
proof -
  have len: "int (length (pixels out)) = 4 * uint (rows inp) * uint (columns inp)"
    using assms(1,2) by (simp add: image_ok_def same_shape_def)
  define n where "n = nat (IMG_BYTE (uint (columns inp)) r c 0)"
  have e: "nat (IMG_BYTE (uint (columns inp)) r c 1) = n + 1"
    "nat (IMG_BYTE (uint (columns inp)) r c 2) = n + 2"
    "nat (IMG_BYTE (uint (columns inp)) r c 3) = n + 3"
    unfolding n_def using assms by (simp_all add: IMG_BYTE_nat)
  have "IMG_BYTE (uint (columns inp)) r c 3 < int (length (pixels out))"
    unfolding len using assms by (intro IMG_BYTE_upper) auto
  then have hi: "n + 3 < length (pixels out)"
    using e(3) by linarith
  from \<open>0 \<le> b\<close> \<open>b < 4\<close> have "b = 0 \<or> b = 1 \<or> b = 2 \<or> b = 3"
    by arith
  then show ?thesis
    using hi unfolding put_pixel_def e n_def [symmetric]
    by (elim disjE) (simp_all add: e n_def [symmetric] nth_list_update)
qed

section \<open>The stores of a list of pixels\<close>

lemma IMG_BYTE_nat_inj:
  fixes cols :: int
  assumes "0 \<le> r" "0 \<le> c" "c < cols" "0 \<le> b" "b < 4"
    and "0 \<le> r'" "0 \<le> c'" "c' < cols" "0 \<le> b'" "b' < 4"
    and "nat (IMG_BYTE cols r c b) = nat (IMG_BYTE cols r' c' b')"
  shows "r = r' \<and> c = c' \<and> b = b'"
proof -
  have "0 \<le> IMG_BYTE cols r c b" "0 \<le> IMG_BYTE cols r' c' b'"
    using assms by (auto intro!: IMG_BYTE_lower)
  then have "IMG_BYTE cols r c b = IMG_BYTE cols r' c' b'"
    using assms(11) by linarith
  then show ?thesis
    using assms by (intro IMG_BYTE_inj) auto
qed

lemma run_cells:
  assumes "image_ok inp" and "same_shape out inp" and "\<And>p. p \<in> set ps \<Longrightarrow> in_image inp p"
  shows "\<exists>out'.
      for_each (\<lambda>(r, c). pixel_body inp k (sint (rows inp)) (sint (columns inp))
                  (normalize_kernel k) r c) ps out = Some out'
    \<and> same_shape out' inp
    \<and> (\<forall>p b. p \<in> set ps \<and> 0 \<le> b \<and> b < 4 \<longrightarrow>
          pixels out' ! nat (IMG_BYTE (uint (columns inp)) (fst p) (snd p) b) =
            written inp k (fst p) (snd p) b)
    \<and> (\<forall>j. (\<forall>p b. p \<in> set ps \<and> 0 \<le> b \<and> b < 4 \<longrightarrow>
                j \<noteq> nat (IMG_BYTE (uint (columns inp)) (fst p) (snd p) b)) \<longrightarrow>
          pixels out' ! j = pixels out ! j)"
  using assms(2,3)
proof (induction ps arbitrary: out)
  case Nil
  then show ?case by simp
next
  case (Cons q ps)
  let ?C = "uint (columns inp)"
  let ?f = "\<lambda>(r, c). pixel_body inp k (sint (rows inp)) (sint (columns inp))
                  (normalize_kernel k) r c"
  let ?off = "\<lambda>p b. nat (IMG_BYTE ?C (fst p) (snd p) b)"
  let ?out1 = "put_pixel inp k (fst q) (snd q) out"
  have q: "in_image inp q"
    using Cons.prems(2) by simp
  then have qr: "0 \<le> fst q" "fst q < uint (rows inp)" "0 \<le> snd q" "snd q < ?C"
    by (simp_all add: in_image_def)
  have step: "?f q out = Some ?out1"
    using pixel_body_put_pixel [OF assms(1) Cons.prems(1) qr, of k]
    by (simp add: case_prod_unfold)
  have s1: "same_shape ?out1 inp"
    using Cons.prems(1) by (rule put_pixel_shape)
  have rest: "\<And>p. p \<in> set ps \<Longrightarrow> in_image inp p"
    using Cons.prems(2) by simp
  from Cons.IH [OF s1 rest] obtain out' where
    run: "for_each ?f ps ?out1 = Some out'" and
    shape: "same_shape out' inp" and
    own: "\<And>p b. p \<in> set ps \<Longrightarrow> 0 \<le> b \<Longrightarrow> b < 4 \<Longrightarrow>
            pixels out' ! ?off p b = written inp k (fst p) (snd p) b" and
    other: "\<And>j. (\<And>p b. p \<in> set ps \<Longrightarrow> 0 \<le> b \<Longrightarrow> b < 4 \<Longrightarrow> j \<noteq> ?off p b) \<Longrightarrow>
            pixels out' ! j = pixels ?out1 ! j"
    by blast
  have all: "for_each ?f (q # ps) out = Some out'"
    using step run by simp
  have own': "pixels out' ! ?off p b = written inp k (fst p) (snd p) b"
    if p: "p \<in> set (q # ps)" and b: "0 \<le> b" "b < 4" for p b
  proof (cases "p \<in> set ps")
    case True
    then show ?thesis using own b by simp
  next
    case False
    then have pq: "p = q" using p by simp
    have "?off q b \<noteq> ?off p' b'" if p': "p' \<in> set ps" and b': "0 \<le> b'" "b' < 4" for p' b'
    proof
      assume e: "?off q b = ?off p' b'"
      have "in_image inp p'" using rest p' by simp
      then have "fst q = fst p' \<and> snd q = snd p' \<and> b = b'"
        using qr b b' e by (intro IMG_BYTE_nat_inj [of _ _ ?C]) (simp_all add: in_image_def)
      then have "q = p'" by (simp add: prod_eq_iff)
      then show False using False pq p' by simp
    qed
    then have "pixels out' ! ?off q b = pixels ?out1 ! ?off q b"
      by (intro other) auto
    also have "\<dots> = written inp k (fst q) (snd q) b"
      using put_pixel_own [OF assms(1) Cons.prems(1) qr b] .
    finally show ?thesis using pq by simp
  qed
  have other': "pixels out' ! j = pixels out ! j"
    if j: "\<And>p b. p \<in> set (q # ps) \<Longrightarrow> 0 \<le> b \<Longrightarrow> b < 4 \<Longrightarrow> j \<noteq> ?off p b" for j
  proof -
    have "pixels out' ! j = pixels ?out1 ! j"
      using j by (intro other) auto
    also have "\<dots> = pixels out ! j"
      using j [of q] by (intro put_pixel_other) auto
    finally show ?thesis .
  qed
  show ?case
    using all shape own' other' by blast
qed

section \<open>The pixels of the iteration space\<close>

lemma col_cells_set:
  "p \<in> set (col_cells cols nxt r c) \<Longrightarrow>
     fst p = r \<and> c \<le> snd p \<and> snd p < cols \<and> IMG_BYTE cols r (snd p) 0 \<le> nxt"
proof (induction cols nxt r c rule: col_cells.induct)
  case (1 cols nxt r c)
  show ?case
  proof (cases "IMG_BYTE cols r c 0 \<le> nxt \<and> c < cols")
    case False
    then show ?thesis
      using "1.prems" by (simp add: col_cells_stop)
  next
    case True
    then have "p = (r, c) \<or> p \<in> set (col_cells cols nxt r (c + 1))"
      using "1.prems" by (simp add: col_cells_step)
    then show ?thesis
    proof
      assume "p = (r, c)"
      then show ?thesis using True by simp
    next
      assume "p \<in> set (col_cells cols nxt r (c + 1))"
      then show ?thesis using "1.IH" [OF True] by force
    qed
  qed
qed

lemma col_cells_mem:
  "c \<le> c' \<Longrightarrow> c' < cols \<Longrightarrow> IMG_BYTE cols r c' 0 \<le> nxt \<Longrightarrow>
     (r, c') \<in> set (col_cells cols nxt r c)"
proof (induction cols nxt r c rule: col_cells.induct)
  case (1 cols nxt r c)
  have "IMG_BYTE cols r c 0 \<le> IMG_BYTE cols r c' 0"
    using "1.prems"(1) by (simp add: IMG_BYTE_int)
  then have g: "IMG_BYTE cols r c 0 \<le> nxt \<and> c < cols"
    using "1.prems" by simp
  show ?case
  proof (cases "c = c'")
    case True
    then show ?thesis using g by (simp add: col_cells_step)
  next
    case False
    then have "c + 1 \<le> c'" using "1.prems"(1) by simp
    then have "(r, c') \<in> set (col_cells cols nxt r (c + 1))"
      using "1.IH" [OF g] "1.prems" by simp
    then show ?thesis using g by (simp add: col_cells_step)
  qed
qed

lemma row_cells_set:
  "p \<in> set (row_cells rws cols nxt r cs) \<Longrightarrow> 0 \<le> cs \<Longrightarrow>
     r \<le> fst p \<and> fst p < rws \<and> 0 \<le> snd p \<and> snd p < cols"
proof (induction rws cols nxt r cs rule: row_cells.induct)
  case (1 rws cols nxt r cs)
  let ?cs' = "if IMG_BYTE cols r cs 0 \<le> nxt \<and> cs < cols then 0 else cs"
  show ?case
  proof (cases "IMG_BYTE cols r 0 0 \<le> nxt \<and> r < rws")
    case False
    then show ?thesis
      using "1.prems" by (simp add: row_cells_stop)
  next
    case True
    then have "p \<in> set (col_cells cols nxt r cs) \<or> p \<in> set (row_cells rws cols nxt (r + 1) ?cs')"
      using "1.prems"(1) by (simp add: row_cells_step)
    then show ?thesis
    proof
      assume "p \<in> set (col_cells cols nxt r cs)"
      then show ?thesis
        using col_cells_set [of p cols nxt r cs] True "1.prems"(2) by simp
    next
      assume p: "p \<in> set (row_cells rws cols nxt (r + 1) ?cs')"
      have "0 \<le> ?cs'" using "1.prems"(2) by simp
      then show ?thesis
        using "1.IH" [OF True p] by simp
    qed
  qed
qed

lemma row_cells_mem:
  "0 \<le> cols \<Longrightarrow> r \<le> r' \<Longrightarrow> r' < rws \<Longrightarrow> 0 \<le> c' \<Longrightarrow> c' < cols \<Longrightarrow>
     IMG_BYTE cols r' c' 0 \<le> nxt \<Longrightarrow> (r', c') \<in> set (row_cells rws cols nxt r 0)"
proof (induction rws cols nxt r "0::int" rule: row_cells.induct)
  case (1 rws cols nxt r)
  have "cols * r \<le> cols * r'"
    using "1.prems" by (intro mult_left_mono) auto
  then have "4 * (cols * r) \<le> 4 * (cols * r') + 4 * c'"
    using "1.prems"(4) by linarith
  then have "IMG_BYTE cols r 0 0 \<le> IMG_BYTE cols r' c' 0"
    by (simp only: IMG_BYTE_int) simp
  then have g: "IMG_BYTE cols r 0 0 \<le> nxt \<and> r < rws"
    using "1.prems" by simp
  have unfold: "row_cells rws cols nxt r 0 =
      col_cells cols nxt r 0 @ row_cells rws cols nxt (r + 1) 0"
    using g by (simp add: row_cells_step)
  show ?case
  proof (cases "r = r'")
    case True
    then have "(r', c') \<in> set (col_cells cols nxt r 0)"
      using "1.prems" by (simp add: col_cells_mem)
    then show ?thesis by (simp add: unfold)
  next
    case False
    then have "r + 1 \<le> r'" using "1.prems" by simp
    then have "(r', c') \<in> set (row_cells rws cols nxt (r + 1) 0)"
      using "1.hyps" [OF g] "1.prems" by simp
    then show ?thesis by (simp add: unfold)
  qed
qed

lemma convolve_loops_cells:
  "sint (columns (input a)) \<noteq> 0 \<Longrightarrow>
     convolve_loops body a s =
       for_each (\<lambda>(r, c). body r c)
         (row_cells (sint (rows (input a))) (sint (columns (input a)))
            (next_section_offset a) (r_start a) (c_start a)) s"
  by (simp add: convolve_loops_def BYTES_PER_PIXEL_def row_loop_cells Let_def)

lemma processed_cells:
  "sint (columns (input a)) \<noteq> 0 \<Longrightarrow>
     processed a =
       row_cells (sint (rows (input a))) (sint (columns (input a)))
         (next_section_offset a) (r_start a) (c_start a)"
  by (simp add: processed_def convolve_loops_cells for_each_record)

lemma convolve_cells:
  "sint (columns (input a)) \<noteq> 0 \<Longrightarrow>
     convolve a =
       for_each (\<lambda>(r, c). pixel_body (input a) (kernel a) (sint (rows (input a)))
                   (sint (columns (input a))) (normalize_kernel (kernel a)) r c)
         (processed a) (output a)"
  by (simp add: convolve_def Let_def convolve_loops_cells processed_cells)

lemma sdiv_nonneg: "0 \<le> a \<Longrightarrow> 0 < b \<Longrightarrow> a sdiv b = a div (b::int)"
  by (cases "a = 0") (simp_all add: signed_divide_int_def)

section \<open>A worker started by \<open>main\<close>\<close>

lemma thread_arguments_fields:
  "thread_id (thread_arguments inp out k n i) = i"
  "input (thread_arguments inp out k n i) = inp"
  "output (thread_arguments inp out k n i) = out"
  "kernel (thread_arguments inp out k n i) = k"
  by (simp_all add: thread_arguments_def)

lemma dims_pos:
  assumes "dims_ok img"
  shows "0 < uint (rows img)" "0 < uint (columns img)"
  using assms by (simp_all add: dims_ok_def)

lemma section_size_nonneg:
  assumes "dims_ok inp" "1 \<le> n" "n \<le> 2147483647"
  shows "0 \<le> section_size (thread_arguments inp out k n i)"
proof -
  have "0 \<le> uint (rows inp) * uint (columns inp) * 4 + 4 * uint (columns inp) + 4"
    by simp
  then show ?thesis
    unfolding section_size_value [OF assms] using assms(2)
    by (intro pos_imp_zdiv_nonneg_iff [THEN iffD2]) auto
qed

lemma worker_start:
  fixes inp out :: image_t and k :: kernel_t and n i :: int
  assumes "dims_ok inp" "1 \<le> n" "n \<le> 2147483647" "0 \<le> i"
  defines "a \<equiv> thread_arguments inp out k n i"
  shows "0 \<le> current_section_offset a"
    and "r_start a = current_section_offset a div (4 * uint (columns inp))"
    and "c_start a =
           (if 0 < r_start a
            then (current_section_offset a - 4 * uint (columns inp) * r_start a) div 4 + 1
            else 0)"
    and "0 \<le> r_start a" and "0 \<le> c_start a"
proof -
  let ?C = "uint (columns inp)"
  have C: "0 < ?C" using assms(1) by (rule dims_pos)
  show cur: "0 \<le> current_section_offset a"
    using section_size_nonneg [OF assms(1-3), of out k i] assms(4)
    by (simp add: current_section_offset_def a_def thread_arguments_fields)
  show r: "r_start a = current_section_offset a div (4 * ?C)"
    using cur C
    by (simp add: r_start_def a_def thread_arguments_fields dims_sint [OF assms(1)]
        BYTES_PER_PIXEL_def sdiv_nonneg)
  show r0: "0 \<le> r_start a"
    unfolding r using cur C by (simp add: pos_imp_zdiv_nonneg_iff)
  have "4 * ?C * (current_section_offset a div (4 * ?C))
          + current_section_offset a mod (4 * ?C) = current_section_offset a"
    by (rule mult_div_mod_eq)
  moreover have "0 \<le> current_section_offset a mod (4 * ?C)"
    using C by simp
  ultimately have "4 * ?C * r_start a \<le> current_section_offset a"
    unfolding r by linarith
  then have m: "0 \<le> current_section_offset a - 4 * ?C * r_start a"
    by simp
  show c: "c_start a =
           (if 0 < r_start a
            then (current_section_offset a - 4 * ?C * r_start a) div 4 + 1
            else 0)"
  proof -
    have "sint (columns (input a)) = ?C"
      by (simp add: a_def thread_arguments_fields dims_sint [OF assms(1)])
    then show ?thesis
      using r0 m by (simp add: c_start_def BYTES_PER_PIXEL_def sdiv_nonneg)
  qed
  show "0 \<le> c_start a"
    unfolding c using m by (simp add: pos_imp_zdiv_nonneg_iff)
qed

lemma processed_thread:
  assumes "dims_ok inp"
  shows "processed (thread_arguments inp out k n i) =
     row_cells (uint (rows inp)) (uint (columns inp))
       (next_section_offset (thread_arguments inp out k n i))
       (r_start (thread_arguments inp out k n i)) (c_start (thread_arguments inp out k n i))"
  using dims_pos [OF assms]
  by (simp add: processed_cells thread_arguments_fields dims_sint [OF assms])

lemma processed_in_image:
  assumes "dims_ok inp" "1 \<le> n" "n \<le> 2147483647" "0 \<le> i"
    and "p \<in> set (processed (thread_arguments inp out k n i))"
  shows "in_image inp p"
proof -
  let ?a = "thread_arguments inp out k n i"
  have "r_start ?a \<le> fst p \<and> fst p < uint (rows inp) \<and> 0 \<le> snd p \<and> snd p < uint (columns inp)"
    using assms(5) worker_start(5) [OF assms(1-4), of out k]
    unfolding processed_thread [OF assms(1)] by (rule row_cells_set)
  then show ?thesis
    using worker_start(4) [OF assms(1-4), of out k] by (simp add: in_image_def)
qed

lemma worker_result:
  assumes "image_ok inp" "same_shape out inp" "1 \<le> n" "n \<le> 2147483647" "0 \<le> i"
  shows "\<exists>out'.
      convolve (thread_arguments inp out k n i) = Some out'
    \<and> same_shape out' inp
    \<and> (\<forall>p b. p \<in> set (processed (thread_arguments inp out k n i)) \<and> 0 \<le> b \<and> b < 4 \<longrightarrow>
          pixels out' ! nat (IMG_BYTE (uint (columns inp)) (fst p) (snd p) b) =
            written inp k (fst p) (snd p) b)
    \<and> (\<forall>j. (\<forall>p b. p \<in> set (processed (thread_arguments inp out k n i)) \<and> 0 \<le> b \<and> b < 4 \<longrightarrow>
                j \<noteq> nat (IMG_BYTE (uint (columns inp)) (fst p) (snd p) b)) \<longrightarrow>
          pixels out' ! j = pixels out ! j)"
proof -
  let ?a = "thread_arguments inp out k n i"
  have ok: "dims_ok inp"
    using assms(1) by (simp add: image_ok_def)
  have c: "sint (columns (input ?a)) \<noteq> 0"
    using dims_pos [OF ok] by (simp add: thread_arguments_fields dims_sint [OF ok])
  have cells: "\<And>p. p \<in> set (processed ?a) \<Longrightarrow> in_image inp p"
    using processed_in_image [OF ok assms(3-5)] .
  show ?thesis
    using run_cells [OF assms(1,2) cells, of "processed ?a" k]
    by (simp add: convolve_cells [OF c] thread_arguments_fields)
qed

lemma written_colour:
  assumes "image_ok inp" "0 \<le> b" "b < 3" "taps_fit k"
  shows "uint (written inp k r c b) = spec_channel inp k r c b"
proof -
  have "0 \<le> spec_channel inp k r c b" "spec_channel inp k r c b \<le> 255"
    by (simp_all add: spec_channel_def clamp_to_range_def)
  then have "spec_channel inp k r c b mod 256 = spec_channel inp k r c b"
    by simp
  then show ?thesis
    by (simp add: written_def channel_value_colour [OF assms] uint_word_of_int)
qed

lemma written_alpha:
  assumes "image_ok inp" "in_image inp (r, c)"
  shows "written inp k r c 3 = pixels inp ! nat (IMG_BYTE (uint (columns inp)) r c 3)"
proof -
  have "channel_value inp k (sint (rows inp)) (sint (columns inp)) (normalize_kernel k) r c 3 =
          Some (input_channel inp r c 3)"
    using assms by (intro channel_value_alpha) (simp_all add: in_image_def)
  then show ?thesis
    by (simp add: written_def input_channel_def IMG_BYTE_def BYTES_PER_PIXEL_def)
qed

lemma spec_channel_identity:
  assumes "dims_ok inp" "in_image inp (r, c)"
  shows "spec_channel inp identity_kernel r c b = input_channel inp r c b"
proof -
  have r: "clamp_to_range r 0 (uint (rows inp) - 1) = r"
    "clamp_to_range c 0 (uint (columns inp) - 1) = c"
    using assms(2) by (simp_all add: clamp_to_range_def in_image_def)
  have v: "0 \<le> input_channel inp r c b" "input_channel inp r c b \<le> 255"
    using uint_lt2p [of "pixels inp ! nat (uint (columns inp) * 4 * r + 4 * c + b)"]
    by (simp_all add: input_channel_def)
  have "spec_channel inp identity_kernel r c b = clamp_to_range (input_channel inp r c b) 0 255"
    by (simp add: spec_channel_def weight_sum_unfold identity_kernel_def eval_nat_numeral
        sum.atLeast0_lessThan_Suc r)
  then show ?thesis
    using v by (simp add: clamp_to_range_def)
qed

lemma written_identity:
  assumes "image_ok inp" "in_image inp (r, c)" "0 \<le> b" "b < 4"
  shows "written inp identity_kernel r c b = pixels inp ! nat (IMG_BYTE (uint (columns inp)) r c b)"
proof (cases "b = 3")
  case True
  then show ?thesis using written_alpha [OF assms(1,2)] by simp
next
  case False
  then have b: "b < 3" using assms by simp
  have ok: "dims_ok inp"
    using assms(1) by (simp add: image_ok_def)
  have fit: "taps_fit identity_kernel"
    by (simp add: taps_fit_def abs_weight_sum_unfold identity_kernel_def)
  have "uint (written inp identity_kernel r c b) = input_channel inp r c b"
    using written_colour [OF assms(1,3) b fit] spec_channel_identity [OF ok assms(2)] by simp
  then have "uint (written inp identity_kernel r c b) =
      uint (pixels inp ! nat (IMG_BYTE (uint (columns inp)) r c b))"
    by (simp add: input_channel_def IMG_BYTE_def BYTES_PER_PIXEL_def)
  then show ?thesis
    by (simp only: word_uint_eq_iff)
qed

lemma single_thread_covers:
  assumes "dims_ok inp" "in_image inp p"
  shows "p \<in> set (processed (thread_arguments inp out k 1 0))"
proof -
  let ?a = "thread_arguments inp out k 1 0"
  let ?R = "uint (rows inp)" and ?C = "uint (columns inp)"
  have S: "section_size ?a = ?R * ?C * 4 + 4 * ?C + 4"
    using section_size_value [OF assms(1), of 1 out k 0] by simp
  have cur: "current_section_offset ?a = 0"
    by (simp add: current_section_offset_def thread_arguments_fields)
  have nxt: "next_section_offset ?a = ?R * ?C * 4 + 4 * ?C + 4"
    by (simp add: next_section_offset_def cur S)
  have r: "r_start ?a = 0"
    using worker_start(2) [OF assms(1), of 1 0 out k] by (simp add: cur)
  have c: "c_start ?a = 0"
    using worker_start(3) [OF assms(1), of 1 0 out k] by (simp add: r)
  have p: "0 \<le> fst p" "fst p < ?R" "0 \<le> snd p" "snd p < ?C"
    using assms(2) by (simp_all add: in_image_def)
  then have "IMG_BYTE ?C (fst p) (snd p) 0 < 4 * ?R * ?C"
    by (intro IMG_BYTE_upper) auto
  moreover have "4 * ?R * ?C = ?R * ?C * 4" "0 \<le> ?C"
    by simp_all
  ultimately have "IMG_BYTE ?C (fst p) (snd p) 0 \<le> ?R * ?C * 4 + 4 * ?C + 4"
    by linarith
  then have "(fst p, snd p) \<in> set (row_cells ?R ?C (?R * ?C * 4 + 4 * ?C + 4) 0 0)"
    using p by (intro row_cells_mem) auto
  then show ?thesis
    by (simp add: processed_thread [OF assms(1)] nxt r c)
qed

lemma offset_decompose:
  fixes rws cols j :: int
  assumes "0 < cols" "0 \<le> j" "j < 4 * rws * cols"
  shows "\<exists>r c b. 0 \<le> r \<and> r < rws \<and> 0 \<le> c \<and> c < cols \<and> 0 \<le> b \<and> b < 4
           \<and> j = IMG_BYTE cols r c b"
proof -
  let ?q = "j div 4"
  have "j < 4 * (cols * rws)"
    using assms(3) by (simp add: mult.commute mult.left_commute)
  then have q: "0 \<le> ?q" "?q < cols * rws"
    using assms(2) by auto
  have e: "cols * (?q div cols) + ?q mod cols = ?q"
    by (rule mult_div_mod_eq)
  have m: "0 \<le> ?q mod cols" "?q mod cols < cols"
    using assms(1) by simp_all
  have "cols * (?q div cols) < cols * rws"
    using e m(1) q(2) by linarith
  then have r: "?q div cols < rws"
    by (simp only: mult_less_cancel_left_pos [OF assms(1)])
  have r0: "0 \<le> ?q div cols"
    using q assms(1) by (simp add: pos_imp_zdiv_nonneg_iff)
  have "j = IMG_BYTE cols (?q div cols) (?q mod cols) (j mod 4)"
    by (simp add: IMG_BYTE_int)
  then show ?thesis
    using r r0 m by (intro exI [of _ "?q div cols"] exI [of _ "?q mod cols"] exI [of _ "j mod 4"]) simp
qed

lemma processed_output:
  assumes "dims_ok inp"
  shows "processed (thread_arguments inp out k n i) = processed (thread_arguments inp out' k n i)"
  unfolding processed_thread [OF assms]
  by (simp add: next_section_offset_def current_section_offset_def r_start_def c_start_def
      thread_arguments_def)

lemma run_workers_result:
  assumes "image_ok inp" and "1 \<le> n" and "n \<le> 2147483647" and "same_shape out inp"
  shows "\<exists>out'.
      run_workers inp out k n ids = Some out'
    \<and> same_shape out' inp
    \<and> (\<forall>i p b. i \<in> set ids \<and> p \<in> set (processed (thread_arguments inp out k n (int i)))
            \<and> 0 \<le> b \<and> b < 4 \<longrightarrow>
          pixels out' ! nat (IMG_BYTE (uint (columns inp)) (fst p) (snd p) b) =
            written inp k (fst p) (snd p) b)
    \<and> (\<forall>j. (\<forall>i p b. i \<in> set ids \<and> p \<in> set (processed (thread_arguments inp out k n (int i)))
                \<and> 0 \<le> b \<and> b < 4 \<longrightarrow>
                j \<noteq> nat (IMG_BYTE (uint (columns inp)) (fst p) (snd p) b)) \<longrightarrow>
          pixels out' ! j = pixels out ! j)"
  using assms(4)
proof (induction ids arbitrary: out)
  case Nil
  then show ?case by (simp add: run_workers_def)
next
  case (Cons i0 ids)
  let ?C = "uint (columns inp)"
  let ?off = "\<lambda>p b. nat (IMG_BYTE ?C (fst p) (snd p) b)"
  let ?P = "\<lambda>i. set (processed (thread_arguments inp out k n (int i)))"
  have ok: "dims_ok inp"
    using assms(1) by (simp add: image_ok_def)
  have im: "in_image inp p" if "p \<in> ?P i" for p i
    using processed_in_image [OF ok assms(2,3) _ that] by simp
  from worker_result [OF assms(1) Cons.prems assms(2,3), of "int i0" k] obtain out1 where
    run1: "convolve (thread_arguments inp out k n (int i0)) = Some out1" and
    shape1: "same_shape out1 inp" and
    own1: "\<And>p b. p \<in> ?P i0 \<Longrightarrow> 0 \<le> b \<Longrightarrow> b < 4 \<Longrightarrow>
             pixels out1 ! ?off p b = written inp k (fst p) (snd p) b" and
    other1: "\<And>j. (\<And>p b. p \<in> ?P i0 \<Longrightarrow> 0 \<le> b \<Longrightarrow> b < 4 \<Longrightarrow> j \<noteq> ?off p b) \<Longrightarrow>
             pixels out1 ! j = pixels out ! j"
    by auto
  have P: "processed (thread_arguments inp out1 k n (int i)) =
      processed (thread_arguments inp out k n (int i))" for i
    by (rule processed_output [OF ok])
  from Cons.IH [OF shape1] obtain out' where
    run: "run_workers inp out1 k n ids = Some out'" and
    shape: "same_shape out' inp" and
    own: "\<And>i p b. i \<in> set ids \<Longrightarrow> p \<in> ?P i \<Longrightarrow> 0 \<le> b \<Longrightarrow> b < 4 \<Longrightarrow>
            pixels out' ! ?off p b = written inp k (fst p) (snd p) b" and
    other: "\<And>j. (\<And>i p b. i \<in> set ids \<Longrightarrow> p \<in> ?P i \<Longrightarrow> 0 \<le> b \<Longrightarrow> b < 4 \<Longrightarrow> j \<noteq> ?off p b) \<Longrightarrow>
            pixels out' ! j = pixels out1 ! j"
    unfolding P by blast
  have all: "run_workers inp out k n (i0 # ids) = Some out'"
    using run1 run by (simp add: run_workers_def)
  have own': "pixels out' ! ?off p b = written inp k (fst p) (snd p) b"
    if i: "i \<in> set (i0 # ids)" and p: "p \<in> ?P i" and b: "0 \<le> b" "b < 4" for i p b
  proof (cases "\<exists>i' \<in> set ids. p \<in> ?P i'")
    case True
    then show ?thesis using own b by blast
  next
    case False
    then have i0: "i = i0" using i p by auto
    have "?off p b \<noteq> ?off p' b'"
      if p': "i' \<in> set ids" "p' \<in> ?P i'" and b': "0 \<le> b'" "b' < 4" for i' p' b'
    proof
      assume e: "?off p b = ?off p' b'"
      have "in_image inp p" "in_image inp p'"
        using im p p'(2) by blast+
      then have "fst p = fst p' \<and> snd p = snd p' \<and> b = b'"
        using b b' e by (intro IMG_BYTE_nat_inj [of _ _ ?C]) (simp_all add: in_image_def)
      then have "p = p'" by (simp add: prod_eq_iff)
      then show False using False p' by blast
    qed
    then have "pixels out' ! ?off p b = pixels out1 ! ?off p b"
      by (intro other) auto
    also have "\<dots> = written inp k (fst p) (snd p) b"
      using own1 p b i0 by simp
    finally show ?thesis .
  qed
  have other': "pixels out' ! j = pixels out ! j"
    if j: "\<And>i p b. i \<in> set (i0 # ids) \<Longrightarrow> p \<in> ?P i \<Longrightarrow> 0 \<le> b \<Longrightarrow> b < 4 \<Longrightarrow> j \<noteq> ?off p b"
    for j
  proof -
    have "pixels out' ! j = pixels out1 ! j"
      using j by (intro other) auto
    also have "\<dots> = pixels out ! j"
      using j [of i0] by (intro other1) auto
    finally show ?thesis .
  qed
  show ?case
    using all shape own' other' by blast
qed

lemma run_workers_schedule:
  assumes "image_ok inp" and "1 \<le> n" and "n \<le> 2147483647" and "same_shape out inp"
    and "set ids = set ids'"
  shows "run_workers inp out k n ids = run_workers inp out k n ids'"
proof -
  let ?C = "uint (columns inp)"
  let ?off = "\<lambda>p b. nat (IMG_BYTE ?C (fst p) (snd p) b)"
  let ?P = "\<lambda>i. set (processed (thread_arguments inp out k n (int i)))"
  from run_workers_result [OF assms(1-4), of k ids] obtain o1 where
    run1: "run_workers inp out k n ids = Some o1" and
    shape1: "same_shape o1 inp" and
    own1: "\<And>i p b. i \<in> set ids \<Longrightarrow> p \<in> ?P i \<Longrightarrow> 0 \<le> b \<Longrightarrow> b < 4 \<Longrightarrow>
            pixels o1 ! ?off p b = written inp k (fst p) (snd p) b" and
    other1: "\<And>j. (\<And>i p b. i \<in> set ids \<Longrightarrow> p \<in> ?P i \<Longrightarrow> 0 \<le> b \<Longrightarrow> b < 4 \<Longrightarrow> j \<noteq> ?off p b) \<Longrightarrow>
            pixels o1 ! j = pixels out ! j"
    by blast
  from run_workers_result [OF assms(1-4), of k ids'] obtain o2 where
    run2: "run_workers inp out k n ids' = Some o2" and
    shape2: "same_shape o2 inp" and
    own2: "\<And>i p b. i \<in> set ids \<Longrightarrow> p \<in> ?P i \<Longrightarrow> 0 \<le> b \<Longrightarrow> b < 4 \<Longrightarrow>
            pixels o2 ! ?off p b = written inp k (fst p) (snd p) b" and
    other2: "\<And>j. (\<And>i p b. i \<in> set ids \<Longrightarrow> p \<in> ?P i \<Longrightarrow> 0 \<le> b \<Longrightarrow> b < 4 \<Longrightarrow> j \<noteq> ?off p b) \<Longrightarrow>
            pixels o2 ! j = pixels out ! j"
    unfolding assms(5) [symmetric] by blast
  have "pixels o1 ! j = pixels o2 ! j" for j
  proof (cases "\<exists>i p b. i \<in> set ids \<and> p \<in> ?P i \<and> 0 \<le> b \<and> b < 4 \<and> j = ?off p b")
    case True
    then show ?thesis using own1 own2 by metis
  next
    case False
    then have "pixels o1 ! j = pixels out ! j" "pixels o2 ! j = pixels out ! j"
      by (intro other1 other2; blast)+
    then show ?thesis by simp
  qed
  moreover have "length (pixels o1) = length (pixels o2)"
    using shape1 shape2 by (simp add: same_shape_def)
  ultimately have "pixels o1 = pixels o2"
    by (intro nth_equalityI) auto
  then have "o1 = o2"
    using shape1 shape2 by (simp add: same_shape_def)
  then show ?thesis
    using run1 run2 by simp
qed

lemma run_threads_schedule:
  assumes "image_ok inp" and "1 \<le> n" and "n \<le> 2147483647" and "same_shape out inp"
    and "set ids = {0..<nat n}"
  shows "run_workers inp out k n ids = run_threads inp out k n"
  unfolding run_threads_def using assms(5)
  by (intro run_workers_schedule [OF assms(1-4)]) simp

lemma run_single_thread:
  "run_threads inp out k 1 = convolve (thread_arguments inp out k 1 0)"
  by (simp add: run_threads_def run_workers_def split: option.splits)

lemma catalog_identity:
  "find_entry_by_name DEFAULT_KERNEL_NAME kernel_catalog =
     Some (DEFAULT_KERNEL_NAME, identity_kernel)"
  by (simp add: kernel_catalog_def identity_kernel_def)

section \<open>Facts about the concrete inputs and the image of one pixel\<close>

lemma image_2x2_ok: "image_ok image_2x2"
  by (simp add: image_ok_def dims_ok_def image_2x2_def)

lemma blank_2x2_shape: "same_shape blank_2x2 image_2x2"
  by (simp add: same_shape_def blank_2x2_def image_2x2_def)

lemma spec_channel_single_pixel:
  assumes "rows inp = 1" "columns inp = 1"
  shows "spec_channel inp k 0 0 b =
           clamp_to_range ((weight_sum k * uint (pixels inp ! nat b))
                             sdiv (if weight_sum k = 0 then 1 else weight_sum k)) 0 255"
proof -
  have c: "\<And>x. clamp_to_range x 0 0 = 0"
    by (simp add: clamp_to_range_def)
  have i: "input_channel inp 0 0 b = uint (pixels inp ! nat b)"
    by (simp add: input_channel_def)
  have "(\<Sum>kr = 0..<3. \<Sum>kc = 0..<3. k ! kr ! kc * input_channel inp
            (clamp_to_range (0 + int kr - 1) 0 (uint (rows inp) - 1))
            (clamp_to_range (0 + int kc - 1) 0 (uint (columns inp) - 1)) b) =
        weight_sum k * uint (pixels inp ! nat b)"
    unfolding assms
    by (simp add: c i eval_nat_numeral sum.atLeast0_lessThan_Suc weight_sum_unfold
        algebra_simps)
  then show ?thesis
    unfolding spec_channel_def by simp
qed

section \<open>The partition descriptor\<close>

text \<open>
  C1: the byte range of worker \<open>i\<close> is the half-open interval from \<open>i * S\<close> to
  \<open>(i + 1) * S\<close> with \<open>S = floor (rows * columns * 4 / N)\<close>. The code does not do
  this. Line 351 divides \<open>IMG_BYTE (columns, rows, columns, 4)\<close>, which is
  \<open>4 * columns + 4\<close> more than the \<open>rows * columns * 4\<close> bytes that \<open>init_image\<close>
  allocates (lemma \<open>section_size_value\<close>): for the image of one pixel and one thread the
  section size is 12, not 4. For the image of 2 by 2 pixels and 2 threads it is 14, not 8;
  the first worker processes all four pixels, among them pixel \<open>(1, 1)\<close> with the bytes 12
  to 15, which reach beyond its own section, and the second worker processes nothing.
\<close>

theorem section_size_not_total_bytes:
  "section_size (thread_arguments image_1x1 blank_1x1 identity_kernel 1 0) = 12
   \<and> uint (rows image_1x1) * uint (columns image_1x1) * 4 div 1 = 4
   \<and> section_size (thread_arguments image_2x2 blank_2x2 identity_kernel 2 0) = 14
   \<and> uint (rows image_2x2) * uint (columns image_2x2) * 4 div 2 = 8
   \<and> next_section_offset (thread_arguments image_2x2 blank_2x2 identity_kernel 2 0) = 14
   \<and> map (\<lambda>i. processed (thread_arguments image_2x2 blank_2x2 identity_kernel 2 i)) [0, 1] =
       [[(0, 0), (0, 1), (1, 0), (1, 1)], []]"
  by code_simp

section \<open>The normalization factor\<close>

text \<open>
  C7: for every 3 by 3 kernel whose weights can be added in an \<open>int\<close>,
  \<open>normalize_kernel\<close> returns the sum of the nine weights when that sum is not zero and
  1 when it is zero. For every kernel, also one whose sum overflows, the result is not
  zero; the five kernels of the catalog have the factors 1, 1, 1, -2 and 16. The function
  is pure: it is a function of the kernel with no state to read or change, and its result
  is determined by the nine weights it reads.
\<close>

theorem normalize_kernel_weight_sum:
  "(weights_fit k \<longrightarrow>
      normalize_kernel k = (if weight_sum k = 0 then 1 else weight_sum k))
   \<and> normalize_kernel k \<noteq> 0
   \<and> list_all (\<lambda>entry. weights_fit (snd entry)) kernel_catalog
   \<and> map (\<lambda>entry. normalize_kernel (snd entry)) kernel_catalog = [1, 1, 1, - 2, 16]
   \<and> ((\<forall>r \<in> {0, 1, 2}. \<forall>c \<in> {0, 1, 2}. k ! r ! c = k' ! r ! c) \<longrightarrow>
        normalize_kernel k = normalize_kernel k')"
proof -
  have fits: "weights_fit k \<longrightarrow>
      normalize_kernel k = (if weight_sum k = 0 then 1 else weight_sum k)"
    using normalize_kernel_fits by blast
  have catalog_fits: "list_all (\<lambda>entry. weights_fit (snd entry)) kernel_catalog"
    by (simp add: kernel_catalog_def weights_fit_def abs_weight_sum_unfold)
  have catalog: "map (\<lambda>entry. normalize_kernel (snd entry)) kernel_catalog = [1, 1, 1, - 2, 16]"
    by code_simp
  have same: "normalize_kernel k = normalize_kernel k'"
    if "\<forall>r \<in> {0, 1, 2}. \<forall>c \<in> {0, 1, 2}. k ! r ! c = k' ! r ! c"
  proof (rule normalize_kernel_weights)
    fix r c :: nat
    assume "r < 3" "c < 3"
    then have "r \<in> {0, 1, 2}" "c \<in> {0, 1, 2}"
      by auto
    then show "k ! r ! c = k' ! r ! c"
      using that by blast
  qed
  show ?thesis
    using fits normalize_kernel_nonzero catalog_fits catalog same by blast
qed

theorem normalize_kernel_weight_sum_witness:
  "weights_fit [[- 2, - 1, 0], [- 1, 1, 1], [0, - 2, 2]]
   \<and> normalize_kernel [[- 2, - 1, 0], [- 1, 1, 1], [0, - 2, 2]] = - 2
   \<and> weights_fit [[- 1, - 1, - 1], [- 1, 8, - 1], [- 1, - 1, - 1]]
   \<and> normalize_kernel [[- 1, - 1, - 1], [- 1, 8, - 1], [- 1, - 1, - 1]] = 1
   \<and> normalize_kernel [[1, 2, 1, 7], [2, 4, 2], [1, 2, 1], [5]] = normalize_kernel gaussian_blur_kernel"
proof -
  let ?emboss = "[[- 2, - 1, 0], [- 1, 1, 1], [0, - 2, 2 :: int]]"
  let ?edge = "[[- 1, - 1, - 1], [- 1, 8, - 1], [- 1, - 1, - 1 :: int]]"
  let ?padded = "[[1, 2, 1, 7], [2, 4, 2], [1, 2, 1], [5 :: int]]"
  have f1: "weights_fit ?emboss"
    by (simp add: weights_fit_def abs_weight_sum_unfold)
  have f2: "weights_fit ?edge"
    by (simp add: weights_fit_def abs_weight_sum_unfold)
  have s1: "weight_sum ?emboss = - 2"
    by (simp add: weight_sum_unfold)
  have s2: "weight_sum ?edge = 0"
    by (simp add: weight_sum_unfold)
  have w: "\<forall>r \<in> {0, 1, 2}. \<forall>c \<in> {0, 1, 2}. ?padded ! r ! c = gaussian_blur_kernel ! r ! c"
    by (simp add: gaussian_blur_kernel_def)
  from normalize_kernel_weight_sum [of ?emboss] f1 have "normalize_kernel ?emboss = - 2"
    by (simp add: s1)
  moreover from normalize_kernel_weight_sum [of ?edge] f2 have "normalize_kernel ?edge = 1"
    by (simp add: s2)
  moreover from normalize_kernel_weight_sum [of ?padded gaussian_blur_kernel] w
  have "normalize_kernel ?padded = normalize_kernel gaussian_blur_kernel"
    by blast
  ultimately show ?thesis
    using f1 f2 by blast
qed

section \<open>The pixels of the workers\<close>

text \<open>
  C2: for \<open>N\<close> dividing \<open>rows * columns * 4\<close>, the pixels processed by the \<open>N\<close> workers
  partition the image. The code does not do this. On the image of 8 rows and 4 columns
  with 4 threads (4 divides 128) the last worker starts in row 6 at \<open>c_start = 4\<close>, its
  inner loop never runs, \<open>c_start\<close> is never set back to 0, and no worker processes row 7.
  On the image of 1 row and 4 columns with 4 threads (4 divides 16) the second worker has
  \<open>r_start = 0\<close>, starts at column 0 and processes again the three pixels of the first
  worker.
\<close>

theorem workers_leave_gaps_and_overlap:
  "(uint (rows image_8x4) * uint (columns image_8x4) * 4) mod 4 = 0
   \<and> (uint (rows image_1x4) * uint (columns image_1x4) * 4) mod 4 = 0
   \<and> map (\<lambda>i. processed (thread_arguments image_8x4 blank_8x4 identity_kernel 4 i)) [0, 1, 2, 3] =
     [[(0, 0), (0, 1), (0, 2), (0, 3), (1, 0), (1, 1), (1, 2), (1, 3), (2, 0), (2, 1)],
      [(2, 2), (2, 3), (3, 0), (3, 1), (3, 2), (3, 3), (4, 0), (4, 1), (4, 2)],
      [(4, 3), (5, 0), (5, 1), (5, 2), (5, 3), (6, 0), (6, 1), (6, 2), (6, 3)],
      []]
   \<and> map (\<lambda>i. processed (thread_arguments image_1x4 blank_1x4 identity_kernel 4 i)) [0, 1, 2, 3] =
     [[(0, 0), (0, 1), (0, 2)], [(0, 0), (0, 1), (0, 2), (0, 3)], [], []]"
  by code_simp

text \<open>
  C3: one thread and four threads give the same output buffer when the dimensions are
  divisible by 4. The code does not do this: on the image of 8 rows and 4 columns with
  the identity kernel, one thread writes all 128 bytes, and four threads leave the 16
  bytes of row 7 as the output buffer held them before the pass.
\<close>

theorem four_threads_differ_from_one:
  "uint (rows image_8x4) mod 4 = 0 \<and> uint (columns image_8x4) mod 4 = 0
   \<and> find_entry_by_name ''identity'' kernel_catalog = Some (''identity'', identity_kernel)
   \<and> run_threads image_8x4 blank_8x4 identity_kernel 1 =
     Some \<lparr>pixels = replicate 128 255, rows = 8, columns = 4\<rparr>
   \<and> run_threads image_8x4 blank_8x4 identity_kernel 4 =
     Some \<lparr>pixels = replicate 112 255 @ replicate 16 0, rows = 8, columns = 4\<rparr>"
  by code_simp

text \<open>
  C8: the start coordinates of a worker are
  \<open>rowStart = floor (byteOffset / (4 * columns))\<close> and
  \<open>colStart = floor ((byteOffset - 4 * columns * rowStart) / 4) + 1\<close> when \<open>rowStart > 0\<close>,
  else 0 (this part holds, lemma \<open>worker_start\<close>); the first row is iterated from
  \<open>colStart\<close> and every later row from column 0. The last part fails on the code: the
  fourth of 4 workers on the image of 8 rows and 4 columns starts at row 6, column 4, and
  processes nothing, where the iteration of the claim processes the four pixels of row 7.
\<close>

theorem later_rows_not_from_column_0:
  "r_start (thread_arguments image_8x4 blank_8x4 identity_kernel 4 3) = 6
   \<and> c_start (thread_arguments image_8x4 blank_8x4 identity_kernel 4 3) = 4
   \<and> next_section_offset (thread_arguments image_8x4 blank_8x4 identity_kernel 4 3) = 148
   \<and> processed (thread_arguments image_8x4 blank_8x4 identity_kernel 4 3) = []
   \<and> spec_cells 8 4 148 6 4 = [(7, 0), (7, 1), (7, 2), (7, 3)]"
  by code_simp

text \<open>
  C10: for every image with at least one row and one column and every number of threads
  \<open>N \<ge> 1\<close>, every pixel a worker processes lies in the image, so each of the four bytes
  it stores has an offset below \<open>rows * columns * 4\<close>; a worker whose section starts at
  or beyond \<open>rows * columns * 4\<close>, that is past the last byte of the last pixel, processes
  nothing; and the worker ends without a read or a store outside the buffers. (The
  sections do reach beyond the buffer: in the image of 2 by 2 pixels, 16 bytes, the third
  of 3 workers has the section from 18 to 27.)
\<close>

theorem writes_stay_inside_buffer:
  assumes "dims_ok inp" and "1 \<le> n" and "n \<le> 2147483647" and "0 \<le> i" and "i < n"
  shows "(\<forall>p \<in> set (processed (thread_arguments inp out k n i)).
            in_image inp p
          \<and> (\<forall>b \<in> {0, 1, 2, 3}.
                0 \<le> IMG_BYTE (uint (columns inp)) (fst p) (snd p) b
              \<and> IMG_BYTE (uint (columns inp)) (fst p) (snd p) b
                  < uint (rows inp) * uint (columns inp) * 4))
       \<and> (uint (rows inp) * uint (columns inp) * 4
             \<le> current_section_offset (thread_arguments inp out k n i) \<longrightarrow>
           processed (thread_arguments inp out k n i) = [])
       \<and> (image_ok inp \<and> same_shape out inp \<longrightarrow>
           (\<exists>out'. convolve (thread_arguments inp out k n i) = Some out'
              \<and> same_shape out' inp))"
proof -
  let ?a = "thread_arguments inp out k n i"
  let ?R = "uint (rows inp)" and ?C = "uint (columns inp)"
  have C: "0 < ?C" using assms(1) by (rule dims_pos)
  have inside: "in_image inp p
      \<and> (\<forall>b \<in> {0, 1, 2, 3}. 0 \<le> IMG_BYTE ?C (fst p) (snd p) b
            \<and> IMG_BYTE ?C (fst p) (snd p) b < ?R * ?C * 4)"
    if p: "p \<in> set (processed ?a)" for p
  proof -
    have im: "in_image inp p"
      using processed_in_image [OF assms(1-4) p] .
    then have rc: "0 \<le> fst p" "fst p < ?R" "0 \<le> snd p" "snd p < ?C"
      by (simp_all add: in_image_def)
    have "0 \<le> IMG_BYTE ?C (fst p) (snd p) b \<and> IMG_BYTE ?C (fst p) (snd p) b < ?R * ?C * 4"
      if "b \<in> {0, 1, 2, 3}" for b
    proof -
      have b: "0 \<le> b" "b < 4" using that by auto
      have "0 \<le> IMG_BYTE ?C (fst p) (snd p) b"
        using rc b by (intro IMG_BYTE_lower) auto
      moreover have "IMG_BYTE ?C (fst p) (snd p) b < 4 * ?R * ?C"
        using rc b by (intro IMG_BYTE_upper) auto
      ultimately show ?thesis by (simp add: mult.commute mult.left_commute)
    qed
    then show ?thesis using im by blast
  qed
  have past: "processed ?a = []" if far: "?R * ?C * 4 \<le> current_section_offset ?a"
  proof -
    have "(?R * (4 * ?C)) div (4 * ?C) \<le> current_section_offset ?a div (4 * ?C)"
      using far C by (intro zdiv_mono1) (simp_all add: mult.commute mult.left_commute)
    then have "?R \<le> r_start ?a"
      using C by (simp add: worker_start(2) [OF assms(1-4)])
    then have "\<not> (IMG_BYTE ?C (r_start ?a) 0 0 \<le> next_section_offset ?a \<and> r_start ?a < ?R)"
      by simp
    then show ?thesis
      unfolding processed_thread [OF assms(1)] by (rule row_cells_stop)
  qed
  have safe: "\<exists>out'. convolve ?a = Some out' \<and> same_shape out' inp"
    if "image_ok inp \<and> same_shape out inp"
    using worker_result [of inp out n i k] that assms(2-4) by blast
  show ?thesis
    using inside past safe by blast
qed

theorem writes_stay_inside_buffer_witness:
  "dims_ok image_2x2 \<and> (1::int) \<le> 3 \<and> (3::int) \<le> 2147483647
   \<and> (0::int) \<le> 0 \<and> (0::int) < 3 \<and> (0::int) \<le> 2 \<and> (2::int) < 3
   \<and> uint (rows image_2x2) * uint (columns image_2x2) * 4 = 16
   \<and> (0, 1) \<in> set (processed (thread_arguments image_2x2 blank_2x2 identity_kernel 3 0))
   \<and> IMG_BYTE (uint (columns image_2x2)) 0 1 3 < 16
   \<and> current_section_offset (thread_arguments image_2x2 blank_2x2 identity_kernel 3 2) = 18
   \<and> next_section_offset (thread_arguments image_2x2 blank_2x2 identity_kernel 3 2) = 27
   \<and> processed (thread_arguments image_2x2 blank_2x2 identity_kernel 3 2) = []
   \<and> (\<exists>out'. convolve (thread_arguments image_2x2 blank_2x2 identity_kernel 3 2) = Some out')"
proof -
  let ?a = "thread_arguments image_2x2 blank_2x2 identity_kernel 3 2"
  let ?w = "thread_arguments image_2x2 blank_2x2 identity_kernel 3 0"
  have d: "dims_ok image_2x2"
    using image_2x2_ok by (simp add: image_ok_def)
  have n: "(1::int) \<le> 3" "(3::int) \<le> 2147483647" "(0::int) \<le> 2" "(2::int) < 3"
    by simp_all
  have n0: "(1::int) \<le> 3" "(3::int) \<le> 2147483647" "(0::int) \<le> 0" "(0::int) < 3"
    by simp_all
  have e: "uint (rows image_2x2) * uint (columns image_2x2) * 4 = 16"
    by (simp add: image_2x2_def)
  have cur: "current_section_offset ?a = 18"
    by code_simp
  have nxt: "next_section_offset ?a = 27"
    by code_simp
  have m: "(0, 1) \<in> set (processed ?w)"
    by code_simp
  note t0 = writes_stay_inside_buffer [OF d n0, of blank_2x2 identity_kernel]
  from t0 have all: "\<forall>p \<in> set (processed ?w). \<forall>b \<in> {0, 1, 2, 3}.
      IMG_BYTE (uint (columns image_2x2)) (fst p) (snd p) b
        < uint (rows image_2x2) * uint (columns image_2x2) * 4"
    by blast
  have b3: "(3::int) \<in> {0, 1, 2, 3}"
    by simp
  from bspec [OF bspec [OF all m] b3] have inside:
    "IMG_BYTE (uint (columns image_2x2)) 0 1 3 < 16"
    by (simp add: e)
  note t = writes_stay_inside_buffer [OF d n, of blank_2x2 identity_kernel]
  from t have "uint (rows image_2x2) * uint (columns image_2x2) * 4
      \<le> current_section_offset ?a \<longrightarrow> processed ?a = []"
    by blast
  then have past: "processed ?a = []"
    by (simp add: e cur)
  from t have safe: "\<exists>out'. convolve ?a = Some out'"
    using image_2x2_ok blank_2x2_shape by blast
  show ?thesis
    using d n n0 e m inside cur nxt past safe by blast
qed

section \<open>The bytes of a processed pixel\<close>

text \<open>
  C5: for every pixel \<open>(r, c)\<close> a worker processes and every colour channel, the byte
  stored is the value of the specification: the nine taps \<open>(kr, kc)\<close>, each the weight
  times the input channel at \<open>(clamp (r + kr - 1, 0, rows - 1),
  clamp (c + kc - 1, 0, columns - 1))\<close>, summed as integers, divided by the normalization
  factor with truncation towards zero, and clamped into 0 to 255. This is for the
  kernels whose accumulation stays inside the range of a signed integer of 32 bits
  (\<open>taps_fit\<close>: 255 times the sum of the absolute weights is at most \<open>INT_MAX\<close>, as
  for every kernel of the catalog); the normalization factor of the specification is the
  sum of the weights, or 1 for the sum 0.
\<close>

theorem colour_channel_value:
  assumes "image_ok inp" and "same_shape out inp"
    and "1 \<le> n" and "n \<le> 2147483647" and "0 \<le> i" and "i < n"
    and "taps_fit k"
  shows "\<exists>out'.
      convolve (thread_arguments inp out k n i) = Some out'
    \<and> (\<forall>p \<in> set (processed (thread_arguments inp out k n i)). \<forall>b \<in> {0, 1, 2}.
          uint (pixels out' ! nat (IMG_BYTE (uint (columns inp)) (fst p) (snd p) b)) =
            spec_channel inp k (fst p) (snd p) b)"
proof -
  from worker_result [OF assms(1-5), of k] obtain out' where
    run: "convolve (thread_arguments inp out k n i) = Some out'" and
    own: "\<And>p b. p \<in> set (processed (thread_arguments inp out k n i)) \<Longrightarrow> 0 \<le> b \<Longrightarrow> b < 4 \<Longrightarrow>
            pixels out' ! nat (IMG_BYTE (uint (columns inp)) (fst p) (snd p) b) =
              written inp k (fst p) (snd p) b"
    by blast
  have "uint (pixels out' ! nat (IMG_BYTE (uint (columns inp)) (fst p) (snd p) b)) =
          spec_channel inp k (fst p) (snd p) b"
    if "p \<in> set (processed (thread_arguments inp out k n i))" and "b \<in> {0, 1, 2}" for p b
  proof -
    have b: "0 \<le> b" "b < 3" using that(2) by auto
    then show ?thesis
      using own [OF that(1), of b] written_colour [OF assms(1) b assms(7)] by simp
  qed
  then show ?thesis
    using run by blast
qed

theorem colour_channel_value_witness:
  "image_ok image_2x2 \<and> same_shape blank_2x2 image_2x2
   \<and> (1::int) \<le> 2 \<and> (2::int) \<le> 2147483647 \<and> (0::int) \<le> 0 \<and> (0::int) < 2
   \<and> taps_fit gaussian_blur_kernel
   \<and> (1, 1) \<in> set (processed (thread_arguments image_2x2 blank_2x2 gaussian_blur_kernel 2 0))
   \<and> (\<exists>out'.
         convolve (thread_arguments image_2x2 blank_2x2 gaussian_blur_kernel 2 0) = Some out'
       \<and> uint (pixels out' ! 12) = 10)"
proof -
  let ?a = "thread_arguments image_2x2 blank_2x2 gaussian_blur_kernel 2 0"
  have n: "(1::int) \<le> 2" "(2::int) \<le> 2147483647" "(0::int) \<le> 0" "(0::int) < 2"
    by simp_all
  have m: "(1, 1) \<in> set (processed ?a)"
    by code_simp
  have v: "spec_channel image_2x2 gaussian_blur_kernel 1 1 0 = 10"
    by code_simp
  have o: "nat (IMG_BYTE (uint (columns image_2x2)) 1 1 0) = 12"
    by (simp add: IMG_BYTE_def BYTES_PER_PIXEL_def image_2x2_def)
  have fit: "taps_fit gaussian_blur_kernel"
    by (simp add: taps_fit_def abs_weight_sum_unfold gaussian_blur_kernel_def)
  from colour_channel_value [OF image_2x2_ok blank_2x2_shape n fit]
  obtain out' where run: "convolve ?a = Some out'"
    and all: "\<forall>p \<in> set (processed ?a). \<forall>b \<in> {0, 1, 2}.
          uint (pixels out' ! nat (IMG_BYTE (uint (columns image_2x2)) (fst p) (snd p) b)) =
            spec_channel image_2x2 gaussian_blur_kernel (fst p) (snd p) b"
    by blast
  have "(0::int) \<in> {0, 1, 2}"
    by simp
  from bspec [OF bspec [OF all m] this] have "uint (pixels out' ! 12) = 10"
    by (simp add: o v)
  then show ?thesis
    using image_2x2_ok blank_2x2_shape n fit m run by blast
qed

text \<open>
  C6: for every pixel a worker processes and every kernel, the alpha byte stored is the
  alpha byte of the input image at the same row and column.
\<close>

theorem alpha_channel_copied:
  assumes "image_ok inp" and "same_shape out inp"
    and "1 \<le> n" and "n \<le> 2147483647" and "0 \<le> i" and "i < n"
  shows "\<exists>out'.
      convolve (thread_arguments inp out k n i) = Some out'
    \<and> (\<forall>p \<in> set (processed (thread_arguments inp out k n i)).
          pixels out' ! nat (IMG_BYTE (uint (columns inp)) (fst p) (snd p) ALPHA_OFFSET) =
            pixels inp ! nat (IMG_BYTE (uint (columns inp)) (fst p) (snd p) ALPHA_OFFSET))"
proof -
  have ok: "dims_ok inp"
    using assms(1) by (simp add: image_ok_def)
  from worker_result [OF assms(1-5), of k] obtain out' where
    run: "convolve (thread_arguments inp out k n i) = Some out'" and
    own: "\<And>p b. p \<in> set (processed (thread_arguments inp out k n i)) \<Longrightarrow> 0 \<le> b \<Longrightarrow> b < 4 \<Longrightarrow>
            pixels out' ! nat (IMG_BYTE (uint (columns inp)) (fst p) (snd p) b) =
              written inp k (fst p) (snd p) b"
    by blast
  have "pixels out' ! nat (IMG_BYTE (uint (columns inp)) (fst p) (snd p) ALPHA_OFFSET) =
          pixels inp ! nat (IMG_BYTE (uint (columns inp)) (fst p) (snd p) ALPHA_OFFSET)"
    if p: "p \<in> set (processed (thread_arguments inp out k n i))" for p
  proof -
    have "in_image inp (fst p, snd p)"
      using processed_in_image [OF ok assms(3-5) p] by simp
    then show ?thesis
      using own [OF p, of 3] written_alpha [OF assms(1), of "fst p" "snd p" k]
      by (simp add: ALPHA_OFFSET_def)
  qed
  then show ?thesis
    using run by blast
qed

theorem alpha_channel_copied_witness:
  "image_ok image_2x2 \<and> same_shape blank_2x2 image_2x2
   \<and> (1::int) \<le> 2 \<and> (2::int) \<le> 2147483647 \<and> (0::int) \<le> 0 \<and> (0::int) < 2
   \<and> (1, 1) \<in> set (processed (thread_arguments image_2x2 blank_2x2 gaussian_blur_kernel 2 0))
   \<and> (\<exists>out'.
         convolve (thread_arguments image_2x2 blank_2x2 gaussian_blur_kernel 2 0) = Some out'
       \<and> pixels out' ! 15 = 16)"
proof -
  let ?a = "thread_arguments image_2x2 blank_2x2 gaussian_blur_kernel 2 0"
  have n: "(1::int) \<le> 2" "(2::int) \<le> 2147483647" "(0::int) \<le> 0" "(0::int) < 2"
    by simp_all
  have m: "(1, 1) \<in> set (processed ?a)"
    by code_simp
  have o: "nat (IMG_BYTE (uint (columns image_2x2)) 1 1 ALPHA_OFFSET) = 15"
    by (simp add: IMG_BYTE_def BYTES_PER_PIXEL_def ALPHA_OFFSET_def image_2x2_def)
  have v: "pixels image_2x2 ! 15 = 16"
    by (simp add: image_2x2_def)
  from alpha_channel_copied [OF image_2x2_ok blank_2x2_shape n, of gaussian_blur_kernel]
  obtain out' where run: "convolve ?a = Some out'"
    and all: "\<forall>p \<in> set (processed ?a).
          pixels out' ! nat (IMG_BYTE (uint (columns image_2x2)) (fst p) (snd p) ALPHA_OFFSET) =
            pixels image_2x2 ! nat (IMG_BYTE (uint (columns image_2x2)) (fst p) (snd p) ALPHA_OFFSET)"
    by blast
  from bspec [OF all m] have "pixels out' ! 15 = 16"
    by (simp add: o v)
  then show ?thesis
    using image_2x2_ok blank_2x2_shape n m run by blast
qed

text \<open>With the identity kernel, one thread writes the input buffer into the output
  buffer, and with any number of threads every pixel that a worker processes receives the
  four bytes of the input pixel.\<close>

lemma identity_kernel_single_thread:
  assumes "image_ok inp" and "same_shape out inp"
  shows "find_entry_by_name DEFAULT_KERNEL_NAME kernel_catalog =
           Some (DEFAULT_KERNEL_NAME, identity_kernel)
       \<and> (\<exists>out'. run_threads inp out identity_kernel 1 = Some out'
             \<and> pixels out' = pixels inp \<and> rows out' = rows inp \<and> columns out' = columns inp)
       \<and> (\<forall>n i. 1 \<le> n \<and> n \<le> 2147483647 \<and> 0 \<le> i \<and> i < n \<longrightarrow>
             (\<exists>out'. convolve (thread_arguments inp out identity_kernel n i) = Some out'
                \<and> (\<forall>p \<in> set (processed (thread_arguments inp out identity_kernel n i)).
                     \<forall>b \<in> {0, 1, 2, 3}.
                       pixels out' ! nat (IMG_BYTE (uint (columns inp)) (fst p) (snd p) b) =
                         pixels inp ! nat (IMG_BYTE (uint (columns inp)) (fst p) (snd p) b))))"
proof -
  let ?C = "uint (columns inp)" and ?R = "uint (rows inp)"
  have ok: "dims_ok inp"
    using assms(1) by (simp add: image_ok_def)
  have workers: "\<exists>out'. convolve (thread_arguments inp out identity_kernel n i) = Some out'
      \<and> same_shape out' inp
      \<and> (\<forall>p \<in> set (processed (thread_arguments inp out identity_kernel n i)).
           \<forall>b \<in> {0, 1, 2, 3}.
             pixels out' ! nat (IMG_BYTE ?C (fst p) (snd p) b) =
               pixels inp ! nat (IMG_BYTE ?C (fst p) (snd p) b))"
    if n: "1 \<le> n" "n \<le> 2147483647" "0 \<le> i" for n i
  proof -
    let ?a = "thread_arguments inp out identity_kernel n i"
    from worker_result [OF assms n, of identity_kernel] obtain out' where
      run: "convolve ?a = Some out'" and shape: "same_shape out' inp" and
      own: "\<And>p b. p \<in> set (processed ?a) \<Longrightarrow> 0 \<le> b \<Longrightarrow> b < 4 \<Longrightarrow>
              pixels out' ! nat (IMG_BYTE ?C (fst p) (snd p) b) =
                written inp identity_kernel (fst p) (snd p) b"
      by blast
    have "pixels out' ! nat (IMG_BYTE ?C (fst p) (snd p) b) =
            pixels inp ! nat (IMG_BYTE ?C (fst p) (snd p) b)"
      if p: "p \<in> set (processed ?a)" and b: "b \<in> {0, 1, 2, 3}" for p b
    proof -
      have b': "0 \<le> b" "b < 4" using b by auto
      have "in_image inp (fst p, snd p)"
        using processed_in_image [OF ok n p] by simp
      then show ?thesis
        using own [OF p b'] written_identity [OF assms(1) _ b'] by simp
    qed
    then show ?thesis
      using run shape by blast
  qed
  from workers [of 1 0] obtain out' where
    run: "convolve (thread_arguments inp out identity_kernel 1 0) = Some out'" and
    shape: "same_shape out' inp" and
    own: "\<And>p b. p \<in> set (processed (thread_arguments inp out identity_kernel 1 0)) \<Longrightarrow>
            b \<in> {0, 1, 2, 3} \<Longrightarrow>
            pixels out' ! nat (IMG_BYTE ?C (fst p) (snd p) b) =
              pixels inp ! nat (IMG_BYTE ?C (fst p) (snd p) b)"
    by auto
  have len: "length (pixels out') = length (pixels inp)"
    using shape by (simp add: same_shape_def)
  have "pixels out' ! j = pixels inp ! j" if j: "j < length (pixels out')" for j
  proof -
    have "int j < 4 * ?R * ?C"
      using j len assms(1) by (simp add: image_ok_def)
    then obtain r c b where rc: "0 \<le> r" "r < ?R" "0 \<le> c" "c < ?C" "0 \<le> b" "b < 4"
      and e: "int j = IMG_BYTE ?C r c b"
      using offset_decompose [of ?C "int j" ?R] dims_pos(2) [OF ok] by auto
    have "in_image inp (r, c)"
      using rc by (simp add: in_image_def)
    then have "(r, c) \<in> set (processed (thread_arguments inp out identity_kernel 1 0))"
      using ok by (intro single_thread_covers)
    moreover have "b \<in> {0, 1, 2, 3}"
      using rc(5,6) by auto
    ultimately have "pixels out' ! nat (IMG_BYTE ?C r c b) = pixels inp ! nat (IMG_BYTE ?C r c b)"
      using own [of "(r, c)" b] by simp
    moreover have "nat (IMG_BYTE ?C r c b) = j"
      unfolding e [symmetric] by simp
    ultimately show ?thesis
      by simp
  qed
  then have "pixels out' = pixels inp"
    using len by (intro nth_equalityI) auto
  then have single: "\<exists>out'. run_threads inp out identity_kernel 1 = Some out'
      \<and> pixels out' = pixels inp \<and> rows out' = rows inp \<and> columns out' = columns inp"
    using run shape by (auto simp: run_single_thread same_shape_def)
  show ?thesis
    using catalog_identity single workers by blast
qed

text \<open>
  C4: for every input image, the pass with the identity kernel of the catalog gives an
  output buffer equal to the input buffer, byte for byte. The kernel does copy each pixel
  it is applied to (lemma \<open>identity_kernel_single_thread\<close>), but the pass does not
  reach every pixel: with 4 threads on the image of 8 rows and 4 columns, all bytes 255,
  and an output buffer holding 7 in every byte before the pass, the 16 bytes of row 7
  still hold 7 after the pass.
\<close>

theorem identity_pass_leaves_row_unwritten:
  "find_entry_by_name DEFAULT_KERNEL_NAME kernel_catalog =
     Some (DEFAULT_KERNEL_NAME, identity_kernel)
   \<and> pixels image_8x4 = replicate 128 255
   \<and> map_option pixels (run_threads image_8x4 stale_8x4 identity_kernel 4) =
       Some (replicate 112 255 @ replicate 16 7)"
  by code_simp

text \<open>
  C9: for an image of one pixel and any kernel, each of the nine taps reads the byte of
  the channel of that pixel, inside the buffer, and the pass ends without a read or a
  store outside the buffers. For the kernels whose accumulation stays inside the range
  of a signed integer of 32 bits (\<open>taps_fit\<close>), the colour byte stored is the sum of the
  nine weights times that byte, divided with truncation by the normalization factor of
  the specification (the sum of the weights, or 1 for the sum 0), clamped into 0 to 255.
\<close>

theorem single_pixel_image:
  assumes "rows inp = 1" and "columns inp = 1" and "length (pixels inp) = 4"
    and "same_shape out inp" and "b \<in> {0, 1, 2}"
  shows "(\<forall>kr \<in> {0, 1, 2}. \<forall>kc \<in> {0, 1, 2}.
            IMG_BYTE 1 (CLAMP (0 + (int kr - int (KERNEL_DIM div 2))) 0 (1 - 1))
              (CLAMP (0 + (int kc - int (KERNEL_DIM div 2))) 0 (1 - 1)) b = b
          \<and> load_byte inp b = Some (uint (pixels inp ! nat b))
          \<and> (\<forall>v. kernel_tap inp k 1 1 0 0 b kr kc v =
                 Some (int_wrap (v + int_wrap (k ! kr ! kc * uint (pixels inp ! nat b))))))
       \<and> (\<exists>out'. run_threads inp out k 1 = Some out')
       \<and> (taps_fit k \<longrightarrow>
           (\<exists>out'. run_threads inp out k 1 = Some out'
              \<and> uint (pixels out' ! nat b) =
                  clamp_to_range
                    ((weight_sum k * uint (pixels inp ! nat b))
                       sdiv (if weight_sum k = 0 then 1 else weight_sum k))
                    0 255))"
proof -
  have ok: "dims_ok inp"
    using assms(1,2) by (simp add: dims_ok_def)
  have iok: "image_ok inp"
    using ok assms(1-3) by (simp add: image_ok_def)
  have b: "0 \<le> b" "b < 3" "b < 4"
    using assms(5) by auto
  have addr: "IMG_BYTE 1 (CLAMP x 0 (1 - 1)) (CLAMP y 0 (1 - 1)) b = b" for x y
    by (simp add: IMG_BYTE_def CLAMP_def)
  have load: "load_byte inp b = Some (uint (pixels inp ! nat b))"
    using b assms(3) by (simp add: load_byte_def)
  have tap: "kernel_tap inp k 1 1 0 0 b kr kc v =
               Some (int_wrap (v + int_wrap (k ! kr ! kc * uint (pixels inp ! nat b))))"
    for kr kc v
    using kernel_tap_value [OF iok b(1,3), of k 0 0 kr kc v]
    by (simp add: assms(1,2) clamp_to_range_def input_channel_def)
  let ?a = "thread_arguments inp out k 1 0"
  from worker_result [OF iok assms(4), of 1 0 k] obtain out' where
    run: "convolve ?a = Some out'" and
    own: "\<And>p b. p \<in> set (processed ?a) \<Longrightarrow> 0 \<le> b \<Longrightarrow> b < 4 \<Longrightarrow>
            pixels out' ! nat (IMG_BYTE (uint (columns inp)) (fst p) (snd p) b) =
              written inp k (fst p) (snd p) b"
    by auto
  have ends: "\<exists>out'. run_threads inp out k 1 = Some out'"
    using run by (simp add: run_single_thread)
  have "in_image inp (0, 0)"
    by (simp add: in_image_def assms(1,2))
  then have "(0, 0) \<in> set (processed ?a)"
    using ok by (intro single_thread_covers)
  then have "pixels out' ! nat (IMG_BYTE (uint (columns inp)) 0 0 b) = written inp k 0 0 b"
    using own [of "(0, 0)" b] b by simp
  then have stored: "pixels out' ! nat b = written inp k 0 0 b"
    by (simp add: IMG_BYTE_def)
  have val: "\<exists>out'. run_threads inp out k 1 = Some out'
      \<and> uint (pixels out' ! nat b) =
          clamp_to_range
            ((weight_sum k * uint (pixels inp ! nat b))
               sdiv (if weight_sum k = 0 then 1 else weight_sum k))
            0 255"
    if fit: "taps_fit k"
  proof -
    have "uint (pixels out' ! nat b) =
        clamp_to_range
          ((weight_sum k * uint (pixels inp ! nat b))
             sdiv (if weight_sum k = 0 then 1 else weight_sum k))
          0 255"
      using stored written_colour [OF iok b(1,2) fit, of 0 0]
        spec_channel_single_pixel [OF assms(1,2), of k b]
      by simp
    then show ?thesis
      using run by (simp add: run_single_thread)
  qed
  show ?thesis
    using addr load tap ends val by blast
qed

theorem single_pixel_image_witness:
  "rows image_1x1 = 1 \<and> columns image_1x1 = 1 \<and> length (pixels image_1x1) = 4
   \<and> same_shape blank_1x1 image_1x1 \<and> (1::int) \<in> {0, 1, 2}
   \<and> taps_fit gaussian_blur_kernel
   \<and> pixels blank_1x1 ! nat 1 = 0
   \<and> kernel_tap image_1x1 gaussian_blur_kernel 1 1 0 0 1 2 1 5 = Some 45
   \<and> (\<exists>out'. run_threads image_1x1 blank_1x1 gaussian_blur_kernel 1 = Some out'
         \<and> uint (pixels out' ! nat 1) = 20)"
proof -
  have h: "rows image_1x1 = 1" "columns image_1x1 = 1" "length (pixels image_1x1) = 4"
    "same_shape blank_1x1 image_1x1" "(1::int) \<in> {0, 1, 2}"
    by (simp_all add: image_1x1_def blank_1x1_def same_shape_def)
  have fit: "taps_fit gaussian_blur_kernel"
    by (simp add: taps_fit_def abs_weight_sum_unfold gaussian_blur_kernel_def)
  have z: "pixels blank_1x1 ! nat 1 = 0"
    by (simp add: blank_1x1_def)
  have v: "clamp_to_range
      ((weight_sum gaussian_blur_kernel * uint (pixels image_1x1 ! nat 1))
         sdiv (if weight_sum gaussian_blur_kernel = 0 then 1
               else weight_sum gaussian_blur_kernel)) 0 255 = 20"
    by code_simp
  have t45: "int_wrap (5 + int_wrap (gaussian_blur_kernel ! 2 ! 1 * uint (pixels image_1x1 ! nat 1)))
      = 45"
    by code_simp
  note t = single_pixel_image [OF h, of gaussian_blur_kernel]
  have "(2::nat) \<in> {0, 1, 2}" "(1::nat) \<in> {0, 1, 2}"
    by simp_all
  with t have "kernel_tap image_1x1 gaussian_blur_kernel 1 1 0 0 1 2 1 5 =
      Some (int_wrap (5 + int_wrap (gaussian_blur_kernel ! 2 ! 1 * uint (pixels image_1x1 ! nat 1))))"
    by blast
  then have tap: "kernel_tap image_1x1 gaussian_blur_kernel 1 1 0 0 1 2 1 5 = Some 45"
    by (simp only: t45)
  from t fit have "\<exists>out'. run_threads image_1x1 blank_1x1 gaussian_blur_kernel 1 = Some out'
      \<and> uint (pixels out' ! nat 1) = 20"
    unfolding v by blast
  then show ?thesis
    using h fit z tap by blast
qed

end
